theory Spec2Isabelle
  imports Complex_Main
begin


section \<open>Python strings\<close>

text \<open>
  A Python \<open>str\<close> is modelled as a \<open>string\<close> (a list of \<open>char\<close>) over ASCII: the
  character classes below are the ASCII part of what Python's \<open>str.isspace\<close>,
  \<open>str.isdecimal\<close> and \<open>str.upper\<close> use. Python integers are unbounded; the numbers
  parsed from and printed into descriptors are naturals.
\<close>

definition is_space :: "char \<Rightarrow> bool" where
  "is_space c = (c \<in> set [CHR 0x09, CHR 0x0A, CHR 0x0B, CHR 0x0C, CHR 0x0D,
                            CHR 0x1C, CHR 0x1D, CHR 0x1E, CHR 0x1F, CHR 0x20])"

definition is_digit :: "char \<Rightarrow> bool" where
  "is_digit c = (48 \<le> (of_char c :: nat) \<and> (of_char c :: nat) \<le> 57)"

definition strip :: "string \<Rightarrow> string" where
  \<comment> \<open>\<open>s.strip()\<close>\<close>
  "strip s = rev (dropWhile is_space (rev (dropWhile is_space s)))"

definition upper_char :: "char \<Rightarrow> char" where
  "upper_char c =
     (case map_of (zip ''abcdefghijklmnopqrstuvwxyz'' ''ABCDEFGHIJKLMNOPQRSTUVWXYZ'') c of
        Some u \<Rightarrow> u
      | None \<Rightarrow> c)"

definition upper :: "string \<Rightarrow> string" where
  \<comment> \<open>\<open>s.upper()\<close>\<close>
  "upper s = map upper_char s"

definition isdecimal :: "string \<Rightarrow> bool" where
  \<comment> \<open>\<open>s.isdecimal()\<close>: at least one character, all of them decimal digits\<close>
  "isdecimal s = (s \<noteq> [] \<and> list_all is_digit s)"

definition startswith :: "string \<Rightarrow> string \<Rightarrow> bool" where
  \<comment> \<open>\<open>s.startswith(p)\<close>\<close>
  "startswith s p = (take (length p) s = p)"

definition rsplit1 :: "char \<Rightarrow> string \<Rightarrow> string list" where
  \<comment> \<open>\<open>s.rsplit(sep, 1)\<close>: split once, at the last separator, if there is one\<close>
  "rsplit1 sep s =
     (if sep \<in> set s
      then [rev (tl (dropWhile (\<lambda>c. c \<noteq> sep) (rev s))), rev (takeWhile (\<lambda>c. c \<noteq> sep) (rev s))]
      else [s])"

definition split1_head :: "char \<Rightarrow> string \<Rightarrow> string" where
  \<comment> \<open>\<open>s.split(sep, 1)[0]\<close>: the text before the first separator\<close>
  "split1_head sep s = takeWhile (\<lambda>c. c \<noteq> sep) s"

fun join :: "string \<Rightarrow> string list \<Rightarrow> string" where
  \<comment> \<open>\<open>sep.join(parts)\<close>\<close>
  "join sep [] = []"
| "join sep [x] = x"
| "join sep (x # y # r) = x @ sep @ join sep (y # r)"

definition digit_char :: "nat \<Rightarrow> char" where
  "digit_char d = char_of (48 + d)"

fun py_str :: "nat \<Rightarrow> string" where
  \<comment> \<open>\<open>str(n)\<close> of a non-negative integer\<close>
  "py_str n = (if n < 10 then [digit_char n] else py_str (n div 10) @ [digit_char (n mod 10)])"

declare py_str.simps [simp del]

definition py_int :: "string \<Rightarrow> nat" where
  \<comment> \<open>\<open>int(s)\<close>, called in the source only where \<open>s.isdecimal()\<close> holds\<close>
  "py_int s = foldl (\<lambda>a c. 10 * a + ((of_char c :: nat) - 48)) 0 s"

section \<open>Regular expressions\<close>

text \<open>
  The patterns of the source are values of \<open>rx\<close>. \<open>rx_run r s\<close> lists, in the order a
  backtracking matcher tries them, the texts left over after \<open>r\<close> has matched a prefix of
  \<open>s\<close>: a greedy \<open>+\<close> gives the longest match first, an optional group is tried before it
  is skipped. \<open>Eol\<close> is \<open>$\<close>: the end of the text, or the place before a newline that ends
  the text.
\<close>

datatype cset = Chr char | Cls string | Dot | Dig | Spc

fun cmatch :: "cset \<Rightarrow> char \<Rightarrow> bool" where
  "cmatch (Chr a) c = (c = a)"
| "cmatch (Cls s) c = (c \<in> set s)"
| "cmatch Dot c = (c \<noteq> CHR 0x0A)"
| "cmatch Dig c = is_digit c"
| "cmatch Spc c = is_space c"

datatype rx = Eps | One cset | Many1 cset | Cat rx rx | Opt rx | Eol

fun rx_run :: "rx \<Rightarrow> string \<Rightarrow> string list" where
  "rx_run Eps s = [s]"
| "rx_run (One cs) s = (case s of [] \<Rightarrow> [] | c # t \<Rightarrow> if cmatch cs c then [t] else [])"
| "rx_run (Many1 cs) s =
     map (\<lambda>k. drop k s) (rev [1 ..< Suc (length (takeWhile (cmatch cs) s))])"
| "rx_run (Cat a b) s = concat (map (rx_run b) (rx_run a s))"
| "rx_run (Opt a) s = rx_run a s @ [s]"
| "rx_run Eol s = (if s = [] \<or> s = [CHR 0x0A] then [s] else [])"

definition re_match :: "rx \<Rightarrow> string \<Rightarrow> bool" where
  \<comment> \<open>\<open>re.match(r, s) is not None\<close>: \<open>r\<close> matches at the start of \<open>s\<close>\<close>
  "re_match r s = (rx_run r s \<noteq> [])"

definition re_fullmatch :: "rx \<Rightarrow> string \<Rightarrow> bool" where
  \<comment> \<open>\<open>re.fullmatch(r, s) is not None\<close>: \<open>r\<close> matches all of \<open>s\<close>\<close>
  "re_fullmatch r s = ([] \<in> set (rx_run r s))"

fun tails :: "string \<Rightarrow> string list" where
  "tails [] = [[]]"
| "tails (c # s) = (c # s) # tails s"

definition re_search :: "rx \<Rightarrow> string \<Rightarrow> bool" where
  \<comment> \<open>\<open>re.search(r, s) is not None\<close>: \<open>r\<close> matches at some position of \<open>s\<close>\<close>
  "re_search r s = list_ex (re_match r) (tails s)"

definition rx_lit :: "string \<Rightarrow> rx" where
  \<comment> \<open>a pattern of ordinary characters, each standing for itself\<close>
  "rx_lit s = foldr (\<lambda>c r. Cat (One (Chr c)) r) s Eps"




section \<open>Errors\<close>

datatype error =
    IndexError
  | KeyError
  | ValueError
  | SystemExit string
  | PatternNotModelled

section \<open>HitMatcher: \<open>_checkhit\<close> of \<open>bl.py\<close>\<close>

record hsp =
  identity :: int
  gaps :: int
  align_len :: int
  hseq :: string
  qseq :: string

record descr =
  d_id :: string
  d_accession :: string

record hit =
  hsps :: "hsp list"
  description :: "descr list"


definition COV :: real where
  \<comment> \<open>the literal \<open>0.9\<close>, read as the exact fraction; \<open>coverage_rounding\<close> shows that
      the double-precision comparison decides alike for every query below \<open>2^48\<close>\<close>
  "COV = 0.9"








section \<open>SequenceRegistry: class \<open>Seqs\<close> of \<open>seq.py\<close>\<close>

text \<open>
  A Python \<open>dict\<close> keeps its keys in insertion order: it is modelled as an association
  list, where assigning to a key that is present replaces its value in place and assigning
  to a new key appends it.
\<close>

type_synonym ('k, 'v) dict = "('k \<times> 'v) list"

fun dict_set :: "'k \<Rightarrow> 'v \<Rightarrow> ('k, 'v) dict \<Rightarrow> ('k, 'v) dict" where
  \<comment> \<open>\<open>d[k] = v\<close>\<close>
  "dict_set k v [] = [(k, v)]"
| "dict_set k v ((k', v') # r) = (if k = k' then (k, v) # r else (k', v') # dict_set k v r)"

record Seqs =
  priv_seqs :: "(string, string) dict"
  priv_useqs :: "string set"
  priv_structures :: "(string, string list) dict"
  priv_accessions :: "(string, string list) dict"

definition new_Seqs :: Seqs where
  \<comment> \<open>\<open>Seqs()\<close>\<close>
  "new_Seqs = \<lparr>priv_seqs = [], priv_useqs = {}, priv_structures = [], priv_accessions = []\<rparr>"

definition accessions :: "Seqs \<Rightarrow> (string, string list) dict" where
  "accessions self = priv_accessions self"

definition dscrptrs :: "Seqs \<Rightarrow> string list" where
  "dscrptrs self = map fst (priv_seqs self)"

definition seqs :: "Seqs \<Rightarrow> string set" where
  "seqs self = priv_useqs self"

definition structures :: "Seqs \<Rightarrow> (string, string list) dict" where
  "structures self = priv_structures self"

definition get_seq :: "Seqs \<Rightarrow> string \<Rightarrow> string option" where
  "get_seq self dscrptr = map_of (priv_seqs self) dscrptr"

definition get_structures :: "Seqs \<Rightarrow> string \<Rightarrow> string list option" where
  "get_structures self dscrptr = map_of (priv_structures self) dscrptr"

definition seq_rx :: rx where
  \<comment> \<open>the pattern \<open>[ACDEFGHIKLMNPQRSTWVY-]+\*?\<close>\<close>
  "seq_rx = Cat (Many1 (Cls ''ACDEFGHIKLMNPQRSTWVY-'')) (Opt (One (Chr CHR ''*'')))"

definition validate_seq :: "string \<Rightarrow> bool" where
  "validate_seq seq = re_fullmatch seq_rx seq"

definition next_dscrptr :: "string \<Rightarrow> string" where
  \<comment> \<open>the body of the loop of \<open>add_seq\<close> for a descriptor that is taken\<close>
  "next_dscrptr dscrptr =
     (let d = rsplit1 CHR ''_'' dscrptr
      in join ''_'' (if length d = 1 \<or> \<not> isdecimal (d ! 1)
                     then d @ [''2'']
                     else d[1 := py_str (py_int (d ! 1) + 1)]))"

definition suffix_num :: "string \<Rightarrow> nat" where
  \<comment> \<open>the number a descriptor ends in, 1 for a descriptor without one: it grows with
      every round of the loop of \<open>add_seq\<close>\<close>
  "suffix_num dscrptr =
     (let d = rsplit1 CHR ''_'' dscrptr
      in if length d = 1 \<or> \<not> isdecimal (d ! 1) then 1 else py_int (d ! 1))"

text \<open>
  The loop of \<open>add_seq\<close> ends because every round raises the number the descriptor
  ends in, and the registry holds finitely many descriptors.
\<close>

lemma of_char_digit_char: "d < 10 \<Longrightarrow> (of_char (digit_char d) :: nat) = 48 + d"
  by (simp add: digit_char_def)

lemma is_digit_digit_char: "d < 10 \<Longrightarrow> is_digit (digit_char d)"
  by (simp add: is_digit_def of_char_digit_char)

lemma py_str_digits: "list_all is_digit (py_str n)"
proof (induction n rule: py_str.induct)
  case (1 n)
  show ?case
  proof (cases "n < 10")
    case True
    then show ?thesis
      by (subst py_str.simps) (simp add: is_digit_digit_char)
  next
    case False
    with "1.IH" show ?thesis
      by (subst py_str.simps) (simp add: is_digit_digit_char)
  qed
qed

lemma py_str_nonempty: "py_str n \<noteq> []"
  by (subst py_str.simps) simp

lemma isdecimal_py_str: "isdecimal (py_str n)"
  by (simp add: isdecimal_def py_str_digits py_str_nonempty)

lemma not_digit_underscore: "\<not> is_digit CHR ''_''"
  by (simp add: is_digit_def)

lemma underscore_notin_py_str: "CHR ''_'' \<notin> set (py_str n)"
  using py_str_digits [of n] not_digit_underscore
  by (auto simp: list_all_iff)

lemma py_int_snoc: "py_int (s @ [c]) = 10 * py_int s + ((of_char c :: nat) - 48)"
  by (simp add: py_int_def)

lemma py_int_py_str: "py_int (py_str n) = n"
proof (induction n rule: py_str.induct)
  case (1 n)
  show ?case
  proof (cases "n < 10")
    case True
    then show ?thesis
      by (subst py_str.simps) (simp add: py_int_def of_char_digit_char)
  next
    case False
    with "1.IH" show ?thesis
      by (subst py_str.simps) (simp add: py_int_snoc of_char_digit_char)
  qed
qed

lemma py_str_2: "py_str 2 = ''2''"
  by code_simp

lemma rsplit1_absent: "c \<notin> set s \<Longrightarrow> rsplit1 c s = [s]"
  by (simp add: rsplit1_def)

lemma rsplit1_append: "c \<notin> set t \<Longrightarrow> rsplit1 c (a @ c # t) = [a, t]"
proof -
  assume nt: "c \<notin> set t"
  then have tw: "takeWhile (\<lambda>x. x \<noteq> c) (rev t @ c # rev a) = rev t"
    by (auto simp: takeWhile_tail)
  from nt have dw: "dropWhile (\<lambda>x. x \<noteq> c) (rev t @ c # rev a) = c # rev a"
    by (subst dropWhile_append2) auto
  show ?thesis
    by (simp add: rsplit1_def tw dw)
qed

lemma rsplit1_present:
  "c \<in> set s \<Longrightarrow> \<exists>a b. s = a @ c # b \<and> c \<notin> set b \<and> rsplit1 c s = [a, b]"
proof -
  assume "c \<in> set s"
  then obtain a b where "s = a @ c # b" "c \<notin> set b"
    by (meson split_list_last)
  then show ?thesis
    using rsplit1_append by blast
qed

lemma next_dscrptr_plain: "CHR ''_'' \<notin> set d \<Longrightarrow> next_dscrptr d = d @ ''_2''"
  by (simp add: next_dscrptr_def rsplit1_absent)

lemma next_dscrptr_nondecimal:
  "CHR ''_'' \<notin> set b \<Longrightarrow> \<not> isdecimal b \<Longrightarrow> next_dscrptr (a @ CHR ''_'' # b) = a @ CHR ''_'' # b @ ''_2''"
  by (simp add: next_dscrptr_def rsplit1_append)

lemma next_dscrptr_decimal:
  "CHR ''_'' \<notin> set b \<Longrightarrow> isdecimal b \<Longrightarrow>
     next_dscrptr (a @ CHR ''_'' # b) = a @ CHR ''_'' # py_str (py_int b + 1)"
  by (simp add: next_dscrptr_def rsplit1_append)

lemma suffix_num_numbered: "suffix_num (a @ CHR ''_'' # py_str k) = k"
  by (simp add: suffix_num_def rsplit1_append underscore_notin_py_str isdecimal_py_str py_int_py_str)

lemma suffix_num_next: "suffix_num (next_dscrptr d) = suffix_num d + 1"
proof (cases "CHR ''_'' \<in> set d")
  case False
  then have "suffix_num d = 1"
    by (simp add: suffix_num_def rsplit1_absent)
  moreover have "suffix_num (next_dscrptr d) = 2"
    using False suffix_num_numbered [of d 2] by (simp add: next_dscrptr_plain py_str_2)
  ultimately show ?thesis by simp
next
  case True
  then obtain a b where d: "d = a @ CHR ''_'' # b" and nb: "CHR ''_'' \<notin> set b"
    using rsplit1_present by blast
  show ?thesis
  proof (cases "isdecimal b")
    case True
    with d nb show ?thesis
      by (simp add: next_dscrptr_decimal suffix_num_numbered) (simp add: suffix_num_def rsplit1_append)
  next
    case False
    then have "suffix_num d = 1"
      using d nb by (simp add: suffix_num_def rsplit1_append)
    moreover have "suffix_num (next_dscrptr d) = 2"
      using False d nb suffix_num_numbered [of "a @ CHR ''_'' # b" 2]
      by (simp add: next_dscrptr_nondecimal py_str_2)
    ultimately show ?thesis by simp
  qed
qed


function add_seq_loop :: "string list \<Rightarrow> string \<Rightarrow> string" where
  \<comment> \<open>the loop \<open>while True\<close> of \<open>add_seq\<close>, over the keys of \<open>self._seqs\<close>\<close>
  "add_seq_loop ks dscrptr =
     (if dscrptr \<in> set ks then add_seq_loop ks (next_dscrptr dscrptr) else dscrptr)"
  by pat_completeness auto
termination
proof (relation "measure (\<lambda>(ks, d). Suc (Max (suffix_num ` set ks)) - suffix_num d)")
  show "wf (measure (\<lambda>(ks, d). Suc (Max (suffix_num ` set ks)) - suffix_num d))"
    by simp
next
  fix ks :: "string list" and dscrptr :: string
  assume "dscrptr \<in> set ks"
  then have "suffix_num dscrptr \<le> Max (suffix_num ` set ks)"
    by simp
  then show "((ks, next_dscrptr dscrptr), (ks, dscrptr))
      \<in> measure (\<lambda>(ks, d). Suc (Max (suffix_num ` set ks)) - suffix_num d)"
    by (simp add: suffix_num_next)
qed

declare add_seq_loop.simps [simp del]

definition add_seq :: "Seqs \<Rightarrow> string \<Rightarrow> string \<Rightarrow> int \<times> Seqs" where
  \<comment> \<open>returns the source's code (0 added, 1 invalid, 2 duplicate) and the registry after\<close>
  "add_seq self dscrptr seq =
     (let seq = upper (strip seq);
          dscrptr = strip dscrptr
      in if seq \<notin> seqs self then
           if validate_seq seq then
             let dscrptr = (if dscrptr = [] then ''seq_'' @ py_str (length (priv_seqs self) + 1)
                            else dscrptr);
                 dscrptr = add_seq_loop (map fst (priv_seqs self)) dscrptr
             in (0, self\<lparr>priv_seqs := dict_set dscrptr seq (priv_seqs self),
                         priv_useqs := insert seq (priv_useqs self)\<rparr>)
           else (1, self)
         else (2, self))"

text \<open>
  \<open>_verify_dscrptr\<close> builds a pattern text from the candidate and hands it to \<open>re.match\<close>
  for every stored descriptor. \<open>re_compile\<close> reads the patterns this model covers: a run
  of ordinary characters and dots (a dot matches any character but a newline), followed by
  the fixed tail \<open>(?:_\d+)?$\<close>. A candidate holding another metacharacter gives a pattern
  outside the model (Python may reject it or read it as a larger expression); the model
  then answers \<open>PatternNotModelled\<close>.
\<close>

definition pattern_tail :: string where
  \<comment> \<open>the text \<open>(?:_\d+)?$\<close>\<close>
  "pattern_tail = ''(?:_'' @ [CHR 0x5C] @ ''d+)?$''"

definition tail_rx :: rx where
  "tail_rx = Cat (Opt (Cat (One (Chr CHR ''_'')) (Many1 Dig))) Eol"

definition metachars :: string where
  "metachars = ''.^$*+?{}[]|()'' @ [CHR 0x5C]"

definition plain_char :: "char \<Rightarrow> bool" where
  \<comment> \<open>a character the model reads inside a candidate: ordinary, or a dot\<close>
  "plain_char c = (c = CHR ''.'' \<or> c \<notin> set metachars)"

definition rx_atoms :: "string \<Rightarrow> rx \<Rightarrow> rx" where
  "rx_atoms s r = foldr (\<lambda>c. Cat (One (if c = CHR ''.'' then Dot else Chr c))) s r"

definition re_compile :: "string \<Rightarrow> rx option" where
  "re_compile p =
     (if dropWhile plain_char p = pattern_tail
      then Some (rx_atoms (takeWhile plain_char p) tail_rx)
      else None)"

fun verify_scan :: "Seqs \<Rightarrow> string \<Rightarrow> string \<Rightarrow> string list \<Rightarrow> error + string" where
  \<comment> \<open>the loop \<open>for dscrptr in self.dscrptrs\<close>; the empty text stands for not found\<close>
  "verify_scan self pattern s [] = Inr []"
| "verify_scan self pattern s (dscrptr # rest) =
     (case re_compile pattern of
        None \<Rightarrow> Inl PatternNotModelled
      | Some r \<Rightarrow>
          if re_match r dscrptr \<and> get_seq self dscrptr = Some s then Inr dscrptr
          else verify_scan self pattern s rest)"

definition verify_dscrptr :: "Seqs \<Rightarrow> string \<Rightarrow> string \<Rightarrow> error + string" where
  "verify_dscrptr self d s =
     (let d = strip d;
          s = upper (strip s);
          d_split = rsplit1 CHR ''_'' d;
          pattern = (if length d_split = 1 \<or> \<not> isdecimal (d_split ! 1)
                     then d @ pattern_tail
                     else (d_split ! 0) @ pattern_tail)
      in verify_scan self pattern s (dscrptrs self))"

definition add_accessions ::
  "Seqs \<Rightarrow> string \<Rightarrow> string list \<Rightarrow> string \<Rightarrow> bool \<Rightarrow> error + (bool \<times> Seqs)" where
  "add_accessions self dscrptr accs seq verify =
     (case (if verify then verify_dscrptr self dscrptr seq else Inr dscrptr) of
        Inl e \<Rightarrow> Inl e
      | Inr dscrptr \<Rightarrow>
          if verify \<and> dscrptr = [] then Inr (False, self)
          else Inr (True,
                 if length accs > 0
                 then self\<lparr>priv_accessions := dict_set dscrptr accs (priv_accessions self)\<rparr>
                 else self))"

definition valid :: "string list" where
  "valid = [''pdb'', ''EBI-AF'']"

definition add_structures ::
  "Seqs \<Rightarrow> string \<Rightarrow> string list \<Rightarrow> string \<Rightarrow> bool \<Rightarrow> error + (bool \<times> Seqs)" where
  \<comment> \<open>\<open>structures[0]\<close> of an empty list raises \<open>IndexError\<close>, which the source turns into
      the same \<open>ValueError\<close> as an unknown tag\<close>
  "add_structures self dscrptr strs seq verify =
     (case (if verify then verify_dscrptr self dscrptr seq else Inr dscrptr) of
        Inl e \<Rightarrow> Inl e
      | Inr dscrptr \<Rightarrow>
          if verify \<and> dscrptr = [] then Inr (False, self)
          else (case strs of
                  [] \<Rightarrow> Inl ValueError
                | tag # _ \<Rightarrow>
                    if tag \<notin> set valid then Inl ValueError
                    else Inr (True,
                           if length strs > 1
                           then self\<lparr>priv_structures := dict_set dscrptr strs (priv_structures self)\<rparr>
                           else self)))"

section \<open>HitMatcher: \<open>_acc_pdb_from_hit\<close> of \<open>bl.py\<close>\<close>

fun acc_pdb_loop ::
  "descr list \<Rightarrow> bool \<Rightarrow> string list \<Rightarrow> string list \<Rightarrow> string list \<times> string list" where
  \<comment> \<open>the loop over \<open>hit["description"]\<close>, with \<open>flag\<close> and the two lists \<open>pdbs\<close> and
      \<open>accessions\<close> of the enclosing function as state\<close>
  "acc_pdb_loop [] flag pdbs accs = (pdbs, accs)"
| "acc_pdb_loop (d # ds) flag pdbs accs =
     (if startswith (d_id d) ''pdb|'' then
        (if split1_head CHR ''_'' (d_accession d) \<notin> set pdbs
         then acc_pdb_loop ds flag (pdbs @ [split1_head CHR ''_'' (d_accession d)]) accs
         else acc_pdb_loop ds flag pdbs accs)
      else if flag then
        (if d_accession d \<notin> set accs
         then acc_pdb_loop ds False pdbs (accs @ [d_accession d])
         else acc_pdb_loop ds flag pdbs accs)
      else acc_pdb_loop ds flag pdbs accs)"

definition acc_pdb_from_hit ::
  "hit \<Rightarrow> string list \<Rightarrow> string list \<Rightarrow> string list \<times> string list" where
  "acc_pdb_from_hit hit pdbs accs = acc_pdb_loop (description hit) True pdbs accs"

section \<open>JobPoller: the polling loops of \<open>bl.py\<close>\<close>

text \<open>
  A polling loop runs against a script: the answers of the remote service, in the order
  of the polls. The loop has no bound of its own, so a script that ends while the job is
  still running leaves the loop polling (\<open>Polling\<close>). A result carries the current delay
  and the sleeps made so far, oldest first.
\<close>

datatype wait_result = Done int "int list" | Aborted error | Polling int "int list"

definition status_rx :: "string \<Rightarrow> rx" where
  \<comment> \<open>the pattern \<open>\s+Status=\<close>NAME\<open>\n\<close>\<close>
  "status_rx name = Cat (Many1 Spc) (rx_lit (''Status='' @ name @ [CHR 0x0A]))"

definition outcome :: "string \<Rightarrow> int" where
  \<comment> \<open>\<open>_outcome\<close>\<close>
  "outcome s =
     (if re_search (status_rx ''WAITING'') s then 1
      else if re_search (status_rx ''FAILED'') s then 2
      else if re_search (status_rx ''UNKNOWN'') s then 3
      else if re_search (status_rx ''READY'') s then 4
      else - 1)"

fun blast_wait :: "string \<Rightarrow> string option list \<Rightarrow> int \<Rightarrow> int list \<Rightarrow> wait_result" where
  \<comment> \<open>the loop \<open>while True\<close> of \<open>run\<close>; an answer \<open>None\<close> is a request that
      \<open>_b_request\<close> gave up on. A \<open>match\<close> without a matching case does nothing.\<close>
  "blast_wait rid [] delay slept = Polling delay slept"
| "blast_wait rid (response # rest) delay slept =
     (case response of
        None \<Rightarrow> Aborted (SystemExit ''HTTP-error while querying BLAST server!'')
      | Some text \<Rightarrow>
          if outcome text = 1 then blast_wait rid rest (delay + 10) (slept @ [delay])
          else if outcome text = 2
            then Aborted (SystemExit (''BLAST (ID: '' @ [CHR 0x27] @ rid @ [CHR 0x27] @ '') failed''))
          else if outcome text = 3
            then Aborted (SystemExit (''BLAST (ID: '' @ [CHR 0x27] @ rid @ [CHR 0x27] @ '') expired''))
          else if outcome text = 4 then Done delay (slept @ [delay])
          else if outcome text = - 1
            then Aborted (SystemExit ''Unknown error retrieving BLAST output'')
          else blast_wait rid rest delay (slept @ [delay]))"

definition run_wait :: "string \<Rightarrow> int \<Rightarrow> string option list \<Rightarrow> wait_result" where
  \<comment> \<open>\<open>run\<close> from \<open>delay = 10\<close> to the end of its polling loop\<close>
  "run_wait rid rtoe responses = blast_wait rid responses 10 [rtoe]"

datatype up_response = Up_http_error | Up_bad_json | Up_status "string option"

fun status_wait :: "string list \<Rightarrow> up_response list \<Rightarrow> int \<Rightarrow> int list \<Rightarrow> wait_result" where
  \<comment> \<open>the loops \<open>for job_id in job_ids: while True\<close> of \<open>_convert_to_uniprot\<close>;
      \<open>Up_status st\<close> is an answer whose \<open>jobStatus\<close> is \<open>st\<close>, the other two are
      answers \<open>_up_get\<close> gives up on\<close>
  "status_wait [] responses delay slept = Done delay slept"
| "status_wait (job_id # jobs) [] delay slept = Polling delay slept"
| "status_wait (job_id # jobs) (response # rest) delay slept =
     (case response of
        Up_http_error \<Rightarrow> Aborted (SystemExit ''HTTP-error while querying UniProt server!'')
      | Up_bad_json \<Rightarrow> Aborted (SystemExit ''Unexpected response format from UniProt.'')
      | Up_status st \<Rightarrow>
          if st \<in> set [Some ''NEW'', Some ''RUNNING'']
            then status_wait (job_id # jobs) rest delay (slept @ [delay])
          else if st = None then status_wait jobs rest delay slept
          else Aborted (SystemExit ''Unexpected error from UniProt.''))"

definition convert_wait :: "string list \<Rightarrow> up_response list \<Rightarrow> wait_result" where
  \<comment> \<open>\<open>_convert_to_uniprot\<close> from \<open>delay = 15\<close> to the end of its polling loops\<close>
  "convert_wait job_ids responses = status_wait job_ids responses 15 []"

section \<open>StructureReconciler: \<open>pd.py\<close> and \<open>af.py\<close>\<close>














section \<open>Notions used to state the properties\<close>

definition add_new :: "string list \<Rightarrow> string list \<Rightarrow> string list" where
  \<comment> \<open>\<open>xs\<close> with the elements of \<open>ys\<close> appended in order, each only if it is not yet there\<close>
  "add_new xs ys = foldl (\<lambda>acc y. if y \<in> set acc then acc else acc @ [y]) xs ys"

definition is_pdb :: "descr \<Rightarrow> bool" where
  \<comment> \<open>a description record tagged as a record of the structure database\<close>
  "is_pdb d = startswith (d_id d) ''pdb|''"

definition base_id :: "string \<Rightarrow> string" where
  \<comment> \<open>an identifier without its chain suffix: the text before the first underscore\<close>
  "base_id s = split1_head CHR ''_'' s"





fun add_all :: "Seqs \<Rightarrow> string \<Rightarrow> string list \<Rightarrow> int list \<times> Seqs" where
  \<comment> \<open>submitting sequences one after another under the same descriptor: the codes
      \<open>add_seq\<close> returns, in order, and the registry after\<close>
  "add_all self dscrptr [] = ([], self)"
| "add_all self dscrptr (seq # rest) =
     (case add_seq self dscrptr seq of
        (c, self') \<Rightarrow> (case add_all self' dscrptr rest of (cs, self'') \<Rightarrow> (c # cs, self'')))"

inductive reachable :: "Seqs \<Rightarrow> bool" where
  \<comment> \<open>the registries a run can hold: a new one, changed by the three methods that assign
      to the fields\<close>
  new: "reachable new_Seqs"
| seq: "reachable self \<Longrightarrow> reachable (snd (add_seq self dscrptr seq))"
| accessions:
    "reachable self \<Longrightarrow> add_accessions self dscrptr accs seq verify = Inr (b, self')
       \<Longrightarrow> reachable self'"
| structures:
    "reachable self \<Longrightarrow> add_structures self dscrptr strs seq verify = Inr (b, self')
       \<Longrightarrow> reachable self'"

definition normalized :: "string \<Rightarrow> string" where
  \<comment> \<open>a sequence as the registry stores it: trimmed and in upper case\<close>
  "normalized seq = upper (strip seq)"

definition numbered :: "string \<Rightarrow> bool" where
  \<comment> \<open>the descriptor ends in an underscore and one or more decimal digits\<close>
  "numbered d = (\<exists>b ds. d = b @ ''_'' @ ds \<and> isdecimal ds)"

definition first_dscrptr :: "Seqs \<Rightarrow> string \<Rightarrow> string" where
  \<comment> \<open>the descriptor \<open>add_seq\<close> starts its loop with: the one given, trimmed, or
      \<open>seq_\<close>n for an empty one, n being the size of the registry plus one\<close>
  "first_dscrptr self dscrptr =
     (if strip dscrptr = [] then ''seq_'' @ py_str (length (priv_seqs self) + 1)
      else strip dscrptr)"

definition registry_ok :: "Seqs \<Rightarrow> bool" where
  \<comment> \<open>no sequence is stored twice, and \<open>_useqs\<close> is the set of the stored sequences\<close>
  "registry_ok self =
     (distinct (map snd (priv_seqs self)) \<and> set (map snd (priv_seqs self)) = priv_useqs self)"




definition all_valid :: "Seqs \<Rightarrow> bool" where
  \<comment> \<open>every stored sequence matches the amino-acid pattern\<close>
  "all_valid self = (\<forall>s\<in>priv_useqs self. validate_seq s)"

definition COV_double :: real where
  \<comment> \<open>the double-precision number nearest to 0.9, which Python's literal \<open>0.9\<close> denotes\<close>
  "COV_double = 8106479329266893 / 9007199254740992"

definition rounds :: "(real \<Rightarrow> real) \<Rightarrow> bool" where
  \<comment> \<open>what is used of the rounding of a double-precision product: it keeps the order, and
      it keeps the sixteenths below \<open>2^53\<close>, which are double-precision numbers\<close>
  "rounds fl =
     ((\<forall>x y. x \<le> y \<longrightarrow> fl x \<le> fl y)
      \<and> (\<forall>m::int. \<bar>m\<bar> < 9007199254740992 \<longrightarrow> fl (real_of_int m / 16) = real_of_int m / 16))"

section \<open>Properties\<close>

subsection \<open>Counting gap runs\<close>















subsection \<open>The coverage test in double precision\<close>

text \<open>
  The source compares the alignment length with the double-precision product of the query
  length and the literal \<open>0.9\<close>. For a query shorter than \<open>2^48\<close> residues that
  comparison and the one with the exact fraction \<open>9/10\<close> decide alike, whatever the
  rounding of the product, as long as it keeps the order and keeps the sixteenths.
\<close>

lemma coverage_rounding:
  "rounds fl \<Longrightarrow> 0 \<le> Q \<Longrightarrow> Q < 2 ^ 48 \<Longrightarrow>
     (real_of_int L > fl (real_of_int Q * COV_double)) = (real_of_int L > real_of_int Q * COV)"
proof -
  assume fl: "rounds fl" and Q: "0 \<le> Q" "Q < 2 ^ 48"
  define n where "n = (9 * Q) div 10"
  define r where "r = (9 * Q) mod 10"
  have split: "9 * Q = 10 * n + r" and r: "0 \<le> r" "r \<le> 9"
    by (simp_all add: n_def r_def)
  have n: "0 \<le> n" "n < 2 ^ 48"
    using split r Q by linarith+
  have "9 * real_of_int Q = 10 * real_of_int n + real_of_int r"
    using split by (metis of_int_add of_int_mult of_int_numeral)
  then have exact: "real_of_int Q * COV = real_of_int n + real_of_int r / 10"
    by (simp add: COV_def)
  have x: "real_of_int Q * COV_double = real_of_int Q * COV + real_of_int Q / 45035996273704960"
    by (simp add: COV_double_def COV_def field_simps)
  have Qr: "0 \<le> real_of_int Q" "real_of_int Q < 2 ^ 48"
    using Q by (simp_all add: of_int_less_iff [of Q "2 ^ 48", simplified])
  have rr: "0 \<le> real_of_int r" "real_of_int r \<le> 9"
    using r by simp_all
  have lo: "real_of_int (16 * n) / 16 \<le> real_of_int Q * COV_double"
    unfolding x exact using Qr rr by simp
  have hi: "real_of_int Q * COV_double \<le> real_of_int (16 * n + 15) / 16"
    unfolding x exact using Qr rr by (simp add: field_simps)
  have "\<bar>16 * n\<bar> < 9007199254740992" "\<bar>16 * n + 15\<bar> < 9007199254740992"
    using n by simp_all
  then have keep: "fl (real_of_int (16 * n) / 16) = real_of_int (16 * n) / 16"
    "fl (real_of_int (16 * n + 15) / 16) = real_of_int (16 * n + 15) / 16"
    using fl unfolding rounds_def by blast+
  have "fl (real_of_int (16 * n) / 16) \<le> fl (real_of_int Q * COV_double)"
    "fl (real_of_int Q * COV_double) \<le> fl (real_of_int (16 * n + 15) / 16)"
    using fl lo hi unfolding rounds_def by blast+
  then have between: "real_of_int n \<le> fl (real_of_int Q * COV_double)"
    "fl (real_of_int Q * COV_double) \<le> real_of_int n + 15 / 16"
    unfolding keep by simp_all
  show ?thesis
  proof (cases "L \<le> n")
    case True
    then have "real_of_int L \<le> real_of_int n"
      by simp
    then show ?thesis
      using between(1) exact rr by simp
  next
    case False
    then have "n + 1 \<le> L"
      by simp
    then have "real_of_int n + 1 \<le> real_of_int L"
      by (metis of_int_1 of_int_add of_int_le_iff)
    then show ?thesis
      using between(2) exact rr by simp
  qed
qed




subsection \<open>The polling loops\<close>

lemma outcome_range: "outcome s \<in> {1, 2, 3, 4, - 1}"
  by (simp add: outcome_def)

lemma upt_shift_map: "map f [Suc 0 ..< Suc n] = map (\<lambda>k. f (Suc k)) [0 ..< n]"
  by (induction n) auto

lemma blast_wait_progress:
  "(blast_wait rid responses delay slept = Done d sl \<longrightarrow>
      (\<exists>n. d = delay + 10 * int n \<and> sl = slept @ map (\<lambda>k. delay + 10 * int k) [0 ..< Suc n]))
   \<and> (blast_wait rid responses delay slept = Polling d sl \<longrightarrow>
      (\<exists>n. d = delay + 10 * int n \<and> sl = slept @ map (\<lambda>k. delay + 10 * int k) [0 ..< n]))"
proof (induction responses arbitrary: delay slept)
  case Nil
  show ?case by auto
next
  case (Cons r rs)
  show ?case
  proof (cases r)
    case None
    then show ?thesis by simp
  next
    case (Some body)
    consider "outcome body = 1" | "outcome body = 2" | "outcome body = 3"
      | "outcome body = 4" | "outcome body = - 1"
      using outcome_range [of body] by auto
    then show ?thesis
    proof cases
      case 1
      have step: "blast_wait rid (r # rs) delay slept = blast_wait rid rs (delay + 10) (slept @ [delay])"
        using Some 1 by simp
      have shift: "slept @ delay # map (\<lambda>k. delay + 10 + 10 * int k) [0 ..< m]
                   = slept @ map (\<lambda>k. delay + 10 * int k) [0 ..< Suc m]" for m
        using upt_shift_map [of "\<lambda>k. delay + 10 * int k" m]
        by (simp add: upt_rec [of 0 "Suc m"] algebra_simps del: upt_Suc)
      show ?thesis
      proof (intro conjI impI)
        assume "blast_wait rid (r # rs) delay slept = Done d sl"
        then obtain n where "d = delay + 10 + 10 * int n"
          and "sl = (slept @ [delay]) @ map (\<lambda>k. delay + 10 + 10 * int k) [0 ..< Suc n]"
          using Cons.IH [of "delay + 10" "slept @ [delay]"] step by auto
        then have "d = delay + 10 * int (Suc n)"
          and "sl = slept @ map (\<lambda>k. delay + 10 * int k) [0 ..< Suc (Suc n)]"
          using shift [of "Suc n"] by simp_all
        then show "\<exists>n. d = delay + 10 * int n \<and> sl = slept @ map (\<lambda>k. delay + 10 * int k) [0 ..< Suc n]"
          by blast
      next
        assume "blast_wait rid (r # rs) delay slept = Polling d sl"
        then obtain n where "d = delay + 10 + 10 * int n"
          and "sl = (slept @ [delay]) @ map (\<lambda>k. delay + 10 + 10 * int k) [0 ..< n]"
          using Cons.IH [of "delay + 10" "slept @ [delay]"] step by auto
        then have "d = delay + 10 * int (Suc n)"
          and "sl = slept @ map (\<lambda>k. delay + 10 * int k) [0 ..< Suc n]"
          using shift [of n] by simp_all
        then show "\<exists>n. d = delay + 10 * int n \<and> sl = slept @ map (\<lambda>k. delay + 10 * int k) [0 ..< n]"
          by blast
      qed
    next
      case 4
      then have "blast_wait rid (r # rs) delay slept = Done delay (slept @ [delay])"
        using Some by simp
      then show ?thesis
        by (auto intro: exI [of _ 0])
    qed (use Some in simp_all)
  qed
qed

lemma status_wait_constant:
  "(status_wait jobs ups delay slept = Done d sl \<longrightarrow>
      d = delay \<and> (\<exists>n. sl = slept @ replicate n delay))
   \<and> (status_wait jobs ups delay slept = Polling d sl \<longrightarrow>
      d = delay \<and> (\<exists>n. sl = slept @ replicate n delay))"
proof (induction jobs ups delay slept rule: status_wait.induct)
  case (1 responses delay slept)
  show ?case by simp
next
  case (2 job_id jobs delay slept)
  show ?case by simp
next
  case (3 job_id jobs response rest delay slept)
  show ?case
  proof (cases response)
    case Up_http_error
    then show ?thesis by simp
  next
    case Up_bad_json
    then show ?thesis by simp
  next
    case (Up_status st)
    consider "st \<in> set [Some ''NEW'', Some ''RUNNING'']"
      | "st \<notin> set [Some ''NEW'', Some ''RUNNING'']" "st = None"
      | "st \<notin> set [Some ''NEW'', Some ''RUNNING'']" "st \<noteq> None"
      by blast
    then show ?thesis
    proof cases
      case 1
      have step: "status_wait (job_id # jobs) (response # rest) delay slept
                  = status_wait (job_id # jobs) rest delay (slept @ [delay])"
        using Up_status 1 by simp
      have grow: "(slept @ [delay]) @ replicate n delay = slept @ replicate (Suc n) delay" for n
        by simp
      show ?thesis
        using "3.IH"(1) [OF Up_status 1] unfolding step grow by blast
    next
      case 2
      have step: "status_wait (job_id # jobs) (response # rest) delay slept
                  = status_wait jobs rest delay slept"
        using Up_status 2 by simp
      show ?thesis
        using "3.IH"(2) [OF Up_status 2] unfolding step by blast
    next
      case 3
      then show ?thesis using Up_status by auto
    qed
  qed
qed

text \<open>
  C7, as amended. In the polling loop of the similarity search every answer WAITING
  raises the delay by 10 seconds, and the delay never falls or is set back: the sleeps
  of the loop are the starting delay, then 10 more each time. In the polling loops of the
  identifier-mapping jobs an answer NEW or RUNNING leaves the delay as it is: every sleep
  there lasts the starting delay (15 seconds), which never falls or is set back either.
\<close>

theorem polling_delay:
  "(outcome body = 1 \<longrightarrow>
      blast_wait rid (Some body # rest) delay slept
        = blast_wait rid rest (delay + 10) (slept @ [delay]))
   \<and> (blast_wait rid responses delay slept = Done d sl \<longrightarrow>
        (\<exists>n. d = delay + 10 * int n
             \<and> sl = slept @ map (\<lambda>k. delay + 10 * int k) [0 ..< Suc n]))
   \<and> (blast_wait rid responses delay slept = Polling d sl \<longrightarrow>
        (\<exists>n. d = delay + 10 * int n
             \<and> sl = slept @ map (\<lambda>k. delay + 10 * int k) [0 ..< n]))
   \<and> (st = Some ''NEW'' \<or> st = Some ''RUNNING'' \<longrightarrow>
        status_wait (job_id # jobs) (Up_status st # ups) delay slept
          = status_wait (job_id # jobs) ups delay (slept @ [delay]))
   \<and> (status_wait jobs ups delay slept = Done d sl \<longrightarrow>
        d = delay \<and> (\<exists>n. sl = slept @ replicate n delay))
   \<and> (status_wait jobs ups delay slept = Polling d sl \<longrightarrow>
        d = delay \<and> (\<exists>n. sl = slept @ replicate n delay))
   \<and> (run_wait rid rtoe responses = Done d sl \<or> run_wait rid rtoe responses = Polling d sl
        \<longrightarrow> (\<exists>n m. d = 10 + 10 * int n
                   \<and> sl = rtoe # map (\<lambda>k. 10 + 10 * int k) [0 ..< m]))
   \<and> (convert_wait jobs ups = Done d sl \<or> convert_wait jobs ups = Polling d sl
        \<longrightarrow> d = 15 \<and> (\<exists>n. sl = replicate n 15))"
proof -
  have a: "outcome body = 1 \<longrightarrow>
      blast_wait rid (Some body # rest) delay slept
        = blast_wait rid rest (delay + 10) (slept @ [delay])"
    by simp
  have b: "st = Some ''NEW'' \<or> st = Some ''RUNNING'' \<longrightarrow>
        status_wait (job_id # jobs) (Up_status st # ups) delay slept
          = status_wait (job_id # jobs) ups delay (slept @ [delay])"
    by auto
  have c: "run_wait rid rtoe responses = Done d sl \<or> run_wait rid rtoe responses = Polling d sl
        \<longrightarrow> (\<exists>n m. d = 10 + 10 * int n
                   \<and> sl = rtoe # map (\<lambda>k. 10 + 10 * int k) [0 ..< m])"
    using blast_wait_progress [of rid responses 10 "[rtoe]" d sl]
    unfolding run_wait_def by (metis append_Cons append_Nil)
  have e: "convert_wait jobs ups = Done d sl \<or> convert_wait jobs ups = Polling d sl
        \<longrightarrow> d = 15 \<and> (\<exists>n. sl = replicate n 15)"
    using status_wait_constant [of jobs ups 15 "[]" d sl]
    unfolding convert_wait_def by (metis append_Nil)
  show ?thesis
    using a b c e blast_wait_progress [of rid responses delay slept d sl]
      status_wait_constant [of jobs ups delay slept d sl]
    by blast
qed

theorem polling_delay_witness:
  "outcome ('' Status=WAITING'' @ [CHR 0x0A]) = 1
   \<and> blast_wait ''R1'' [Some ('' Status=WAITING'' @ [CHR 0x0A]),
                          Some ('' Status=READY'' @ [CHR 0x0A])] 10 [3]
       = Done 20 [3, 10, 20]
   \<and> (\<exists>n. (20::int) = 10 + 10 * int n
           \<and> [3, 10, 20] = [3] @ map (\<lambda>k. 10 + 10 * int k) [0 ..< Suc n])
   \<and> run_wait ''R1'' 3 [Some ('' Status=WAITING'' @ [CHR 0x0A]),
                          Some ('' Status=READY'' @ [CHR 0x0A])]
       = Done 20 [3, 10, 20]
   \<and> (\<exists>n m. (20::int) = 10 + 10 * int n
           \<and> [3, 10, 20] = 3 # map (\<lambda>k. 10 + 10 * int k) [0 ..< m])
   \<and> status_wait [''j1'', ''j2''] [Up_status (Some ''RUNNING''), Up_status None,
                                     Up_status None] 15 []
       = Done 15 [15]
   \<and> convert_wait [''j1'', ''j2''] [Up_status (Some ''RUNNING''), Up_status None,
                                      Up_status None]
       = Done 15 [15]
   \<and> (\<exists>n. [15::int] = replicate n 15)"
proof -
  have w: "outcome ('' Status=WAITING'' @ [CHR 0x0A]) = 1"
    by code_simp
  have r: "outcome ('' Status=READY'' @ [CHR 0x0A]) = 4"
    by code_simp
  have run: "blast_wait ''R1'' [Some ('' Status=WAITING'' @ [CHR 0x0A]),
                          Some ('' Status=READY'' @ [CHR 0x0A])] 10 [3] = Done 20 [3, 10, 20]"
    using w r by simp
  then have run': "run_wait ''R1'' 3 [Some ('' Status=WAITING'' @ [CHR 0x0A]),
                          Some ('' Status=READY'' @ [CHR 0x0A])] = Done 20 [3, 10, 20]"
    by (simp only: run_wait_def)
  have jobs: "status_wait [''j1'', ''j2''] [Up_status (Some ''RUNNING''), Up_status None,
                                     Up_status None] 15 [] = Done 15 [15]"
    by simp
  then have jobs': "convert_wait [''j1'', ''j2''] [Up_status (Some ''RUNNING''), Up_status None,
                                     Up_status None] = Done 15 [15]"
    by (simp only: convert_wait_def)
  show ?thesis
    using w run run' jobs jobs'
      polling_delay [where body = "'' Status=WAITING'' @ [CHR 0x0A]" and rid = "''R1''"
        and rest = "[Some ('' Status=READY'' @ [CHR 0x0A])]" and delay = 10 and slept = "[3]"
        and rtoe = 3
        and responses = "[Some ('' Status=WAITING'' @ [CHR 0x0A]),
                          Some ('' Status=READY'' @ [CHR 0x0A])]"
        and d = 20 and sl = "[3, 10, 20]"]
      polling_delay [where st = "Some ''RUNNING''" and job_id = "''j1''" and jobs = "[''j1'', ''j2'']"
        and ups = "[Up_status (Some ''RUNNING''), Up_status None, Up_status None]"
        and delay = 15 and slept = "[]" and d = 15 and sl = "[15]"]
    by blast
qed

theorem polling_delay_counterexample:
  "convert_wait [''job''] [Up_status (Some ''RUNNING'')] = Polling 15 [15]
   \<and> convert_wait [''job''] [Up_status (Some ''RUNNING''), Up_status (Some ''RUNNING'')]
       = Polling 15 [15, 15]
   \<and> convert_wait [''job''] [Up_status (Some ''RUNNING''), Up_status None] = Done 15 [15]"
  by (simp add: convert_wait_def)


subsection \<open>Evidence from one hit\<close>

lemma add_new_Nil: "add_new xs [] = xs"
  by (simp add: add_new_def)

lemma add_new_Cons:
  "add_new xs (y # ys) = add_new (if y \<in> set xs then xs else xs @ [y]) ys"
  by (simp add: add_new_def)


lemma distinct_add_new: "distinct xs \<Longrightarrow> distinct (add_new xs ys)"
  by (induction ys arbitrary: xs) (auto simp: add_new_Nil add_new_Cons)


lemma acc_pdb_loop_fst:
  "fst (acc_pdb_loop ds flag pdbs accs)
     = add_new pdbs (map (\<lambda>d. base_id (d_accession d)) (filter is_pdb ds))"
  by (induction ds arbitrary: flag pdbs accs)
     (auto simp: add_new_Nil add_new_Cons is_pdb_def base_id_def)

lemma acc_pdb_loop_snd_off: "snd (acc_pdb_loop ds False pdbs accs) = accs"
  by (induction ds arbitrary: pdbs accs) auto

lemma acc_pdb_loop_snd_on:
  "snd (acc_pdb_loop ds True pdbs accs)
     = (case find (\<lambda>d. \<not> is_pdb d \<and> d_accession d \<notin> set accs) ds of
          None \<Rightarrow> accs
        | Some d \<Rightarrow> accs @ [d_accession d])"
  by (induction ds arbitrary: pdbs accs)
     (auto simp: is_pdb_def acc_pdb_loop_snd_off)


text \<open>
  C8, as amended. From the description records of one matching hit \<open>_acc_pdb_from_hit\<close>
  takes: of every record tagged as a record of the structure database, the base
  identifier (chain suffix after the first underscore stripped), appended to the list of
  pdb identifiers if it is not yet there; and of the first record that is not so tagged
  and whose accession is not yet in the list of accessions, that accession. The records
  not tagged that come before it, whose accessions are known already, add nothing, and
  those that come after it are ignored.
\<close>

theorem acc_pdb_from_hit_result:
  "acc_pdb_from_hit hit pdbs accs =
     (add_new pdbs (map (\<lambda>d. base_id (d_accession d)) (filter is_pdb (description hit))),
      case find (\<lambda>d. \<not> is_pdb d \<and> d_accession d \<notin> set accs) (description hit) of
        None \<Rightarrow> accs
      | Some d \<Rightarrow> accs @ [d_accession d])"
  by (simp add: acc_pdb_from_hit_def prod_eq_iff acc_pdb_loop_fst acc_pdb_loop_snd_on)

theorem acc_pdb_from_hit_counterexample:
  "acc_pdb_from_hit
     \<lparr>hsps = [], description = [\<lparr>d_id = ''ref|A'', d_accession = ''A''\<rparr>]\<rparr> [''pdb''] []
     = ([''pdb''], [''A''])
   \<and> acc_pdb_from_hit
       \<lparr>hsps = [], description = [\<lparr>d_id = ''ref|A'', d_accession = ''A''\<rparr>,
                                  \<lparr>d_id = ''ref|B'', d_accession = ''B''\<rparr>]\<rparr> [''pdb''] [''A'']
     = ([''pdb''], [''A'', ''B''])"
  by (simp add: acc_pdb_from_hit_def startswith_def)

subsection \<open>Storing structures\<close>

lemma map_of_dict_set: "map_of (dict_set k v d) k = Some v"
  by (induction d) auto

lemma map_of_dict_set_other: "k' \<noteq> k \<Longrightarrow> map_of (dict_set k v d) k' = map_of d k'"
  by (induction d) auto

text \<open>
  C9. When verification is not asked for, or resolves the descriptor to \<open>k\<close>,
  \<open>add_structures\<close> raises \<open>ValueError\<close> if the list is empty or its first element is
  neither \<open>pdb\<close> nor \<open>EBI-AF\<close>. With a valid tag it returns true; a list of the tag alone
  leaves the registry as it is, and a longer list becomes the stored list of \<open>k\<close>, whatever
  was stored before.
\<close>

theorem add_structures_tagged:
  "(verify \<longrightarrow> verify_dscrptr self dscrptr seq = Inr k \<and> k \<noteq> []) \<and> (\<not> verify \<longrightarrow> k = dscrptr)
   \<Longrightarrow>
     (strs = [] \<or> hd strs \<notin> {''pdb'', ''EBI-AF''}
        \<longrightarrow> add_structures self dscrptr strs seq verify = Inl ValueError)
   \<and> (strs \<noteq> [] \<and> hd strs \<in> {''pdb'', ''EBI-AF''} \<and> length strs = 1
        \<longrightarrow> add_structures self dscrptr strs seq verify = Inr (True, self))
   \<and> (strs \<noteq> [] \<and> hd strs \<in> {''pdb'', ''EBI-AF''} \<and> length strs > 1
        \<longrightarrow> add_structures self dscrptr strs seq verify
              = Inr (True, self\<lparr>priv_structures := dict_set k strs (priv_structures self)\<rparr>)
            \<and> get_structures
                (self\<lparr>priv_structures := dict_set k strs (priv_structures self)\<rparr>) k
              = Some strs)"
  by (cases strs; cases verify)
     (auto simp: add_structures_def valid_def get_structures_def map_of_dict_set)


theorem add_structures_tagged_witness:
  "verify_dscrptr \<lparr>priv_seqs = [(''d1'', ''ACD'')], priv_useqs = {''ACD''},
                    priv_structures = [(''d1'', [''EBI-AF'', ''u1''])], priv_accessions = []\<rparr>
      ''d1_2'' '' acd'' = Inr ''d1''
   \<and> add_structures \<lparr>priv_seqs = [(''d1'', ''ACD'')], priv_useqs = {''ACD''},
                    priv_structures = [(''d1'', [''EBI-AF'', ''u1''])], priv_accessions = []\<rparr>
      ''d1_2'' [''pdb'', ''1ABC''] '' acd'' True
     = Inr (True, \<lparr>priv_seqs = [(''d1'', ''ACD'')], priv_useqs = {''ACD''},
                    priv_structures = [(''d1'', [''pdb'', ''1ABC''])], priv_accessions = []\<rparr>)
   \<and> add_structures new_Seqs ''d1'' [''EBI-AF''] [] False = Inr (True, new_Seqs)
   \<and> add_structures new_Seqs ''d1'' [''1ABC'', ''pdb''] [] False = Inl ValueError
   \<and> add_structures new_Seqs ''d1'' [] [] False = Inl ValueError"
proof -
  let ?r = "\<lparr>priv_seqs = [(''d1'', ''ACD'')], priv_useqs = {''ACD''},
             priv_structures = [(''d1'', [''EBI-AF'', ''u1''])], priv_accessions = []\<rparr>"
  have v: "verify_dscrptr ?r ''d1_2'' '' acd'' = Inr ''d1''"
    by code_simp
  show ?thesis
    using v
      add_structures_tagged [of True ?r "''d1_2''" "'' acd''" "''d1''" "[''pdb'', ''1ABC'']"]
      add_structures_tagged [of False new_Seqs "''d1''" "[]" "''d1''" "[''EBI-AF'']"]
      add_structures_tagged [of False new_Seqs "''d1''" "[]" "''d1''" "[''1ABC'', ''pdb'']"]
      add_structures_tagged [of False new_Seqs "''d1''" "[]" "''d1''" "[]"]
    by simp
qed


subsection \<open>The two lookup passes\<close>
















subsection \<open>Adding sequences\<close>

lemma dict_set_new: "k \<notin> set (map fst d) \<Longrightarrow> dict_set k v d = d @ [(k, v)]"
  by (induction d) auto

lemma add_seq_loop_free: "d \<notin> set ks \<Longrightarrow> add_seq_loop ks d = d"
  by (subst add_seq_loop.simps) simp

lemma add_seq_loop_taken: "d \<in> set ks \<Longrightarrow> add_seq_loop ks d = add_seq_loop ks (next_dscrptr d)"
  by (subst add_seq_loop.simps) simp

lemma add_seq_loop_notin: "add_seq_loop ks d \<notin> set ks"
proof (induction ks d rule: add_seq_loop.induct)
  case (1 ks d)
  then show ?case
    by (cases "d \<in> set ks") (simp_all add: add_seq_loop_free add_seq_loop_taken)
qed

lemma add_seq_loop_steps:
  "\<exists>j. add_seq_loop ks d = (next_dscrptr ^^ j) d
       \<and> (\<forall>i<j. (next_dscrptr ^^ i) d \<in> set ks)
       \<and> (next_dscrptr ^^ j) d \<notin> set ks"
proof (induction ks d rule: add_seq_loop.induct)
  case (1 ks d)
  show ?case
  proof (cases "d \<in> set ks")
    case False
    then have "add_seq_loop ks d = (next_dscrptr ^^ 0) d \<and> (\<forall>i<0. (next_dscrptr ^^ i) d \<in> set ks)
        \<and> (next_dscrptr ^^ 0) d \<notin> set ks"
      by (simp add: add_seq_loop_free)
    then show ?thesis by blast
  next
    case True
    then obtain j where j: "add_seq_loop ks (next_dscrptr d) = (next_dscrptr ^^ j) (next_dscrptr d)"
      "\<forall>i<j. (next_dscrptr ^^ i) (next_dscrptr d) \<in> set ks"
      "(next_dscrptr ^^ j) (next_dscrptr d) \<notin> set ks"
      using "1.IH" by blast
    have shift: "(next_dscrptr ^^ i) (next_dscrptr d) = (next_dscrptr ^^ Suc i) d" for i
      by (simp add: funpow_swap1)
    have "\<forall>i<Suc j. (next_dscrptr ^^ i) d \<in> set ks"
    proof (intro allI impI)
      fix i assume "i < Suc j"
      then show "(next_dscrptr ^^ i) d \<in> set ks"
        using True j(2) shift by (cases i) auto
    qed
    then have "add_seq_loop ks d = (next_dscrptr ^^ Suc j) d
        \<and> (\<forall>i<Suc j. (next_dscrptr ^^ i) d \<in> set ks)
        \<and> (next_dscrptr ^^ Suc j) d \<notin> set ks"
      using True j(1,3) shift by (simp add: add_seq_loop_taken)
    then show ?thesis by blast
  qed
qed

lemma suffix_num_funpow: "suffix_num ((next_dscrptr ^^ i) d) = suffix_num d + i"
  by (induction i) (simp_all add: suffix_num_next)

lemma funpow_next_inj: "(next_dscrptr ^^ i) d = (next_dscrptr ^^ j) d \<Longrightarrow> i = j"
proof -
  assume "(next_dscrptr ^^ i) d = (next_dscrptr ^^ j) d"
  then have "suffix_num ((next_dscrptr ^^ i) d) = suffix_num ((next_dscrptr ^^ j) d)"
    by (rule arg_cong)
  then show "i = j"
    by (simp only: suffix_num_funpow add_left_cancel)
qed

lemma add_seq_loop_orbit:
  "i \<le> n \<Longrightarrow> (\<forall>j. i \<le> j \<and> j < n \<longrightarrow> (next_dscrptr ^^ j) d \<in> set ks)
     \<Longrightarrow> (next_dscrptr ^^ n) d \<notin> set ks
     \<Longrightarrow> add_seq_loop ks ((next_dscrptr ^^ i) d) = (next_dscrptr ^^ n) d"
proof (induction "n - i" arbitrary: i)
  case 0
  then show ?case by (simp add: add_seq_loop_free)
next
  case (Suc m)
  then have "i < n" by simp
  then have "(next_dscrptr ^^ i) d \<in> set ks"
    using Suc.prems(2) by simp
  moreover have "add_seq_loop ks ((next_dscrptr ^^ Suc i) d) = (next_dscrptr ^^ n) d"
    using Suc.hyps(1) [of "Suc i"] Suc.hyps(2) Suc.prems \<open>i < n\<close> by simp
  ultimately show ?case
    by (simp add: add_seq_loop_taken)
qed


lemma add_seq_duplicate: "normalized seq \<in> seqs self \<Longrightarrow> add_seq self d seq = (2, self)"
  by (simp add: add_seq_def normalized_def)

lemma add_seq_invalid:
  "normalized seq \<notin> seqs self \<Longrightarrow> \<not> validate_seq (normalized seq) \<Longrightarrow> add_seq self d seq = (1, self)"
  by (simp add: add_seq_def normalized_def)

lemma add_seq_added:
  "normalized seq \<notin> seqs self \<Longrightarrow> validate_seq (normalized seq) \<Longrightarrow>
     add_seq self d seq =
       (0, self\<lparr>priv_seqs := priv_seqs self
                    @ [(add_seq_loop (dscrptrs self) (first_dscrptr self d), normalized seq)],
                 priv_useqs := insert (normalized seq) (priv_useqs self)\<rparr>)"
  using add_seq_loop_notin [of "map fst (priv_seqs self)" "first_dscrptr self d"]
  by (simp add: add_seq_def normalized_def first_dscrptr_def dscrptrs_def Let_def dict_set_new)

lemma orbit_Suc_upt:
  "map f [m ..< m + Suc n] = f m # map f [Suc m ..< Suc m + n]"
  by (simp add: upt_conv_Cons del: upt_Suc)

lemma add_all_orbit:
  "strip d \<noteq> [] \<Longrightarrow> \<forall>s\<in>set ss. validate_seq (normalized s) \<Longrightarrow> distinct (map normalized ss) \<Longrightarrow>
   \<forall>s\<in>set ss. normalized s \<notin> seqs self \<Longrightarrow>
   dscrptrs self = ks @ map (\<lambda>i. (next_dscrptr ^^ i) (strip d)) [0 ..< m] \<Longrightarrow>
   \<forall>i < m + length ss. (next_dscrptr ^^ i) (strip d) \<notin> set ks \<Longrightarrow>
     add_all self d ss =
       (replicate (length ss) 0,
        self\<lparr>priv_seqs := priv_seqs self
                 @ zip (map (\<lambda>i. (next_dscrptr ^^ i) (strip d)) [m ..< m + length ss])
                       (map normalized ss),
              priv_useqs := priv_useqs self \<union> set (map normalized ss)\<rparr>)"
proof (induction ss arbitrary: self m)
  case Nil
  show ?case by simp
next
  case (Cons s rest)
  let ?o = "\<lambda>i. (next_dscrptr ^^ i) (strip d)"
  have first: "first_dscrptr self d = ?o 0"
    using Cons.prems(1) by (simp add: first_dscrptr_def)
  have taken: "\<forall>j. 0 \<le> j \<and> j < m \<longrightarrow> ?o j \<in> set (dscrptrs self)"
    using Cons.prems(5) by simp
  have "?o m \<notin> set ks"
    using Cons.prems(6) by simp
  moreover have "?o m \<notin> set (map ?o [0 ..< m])"
    using funpow_next_inj [of m "strip d"] by auto
  ultimately have free: "?o m \<notin> set (dscrptrs self)"
    using Cons.prems(5) by simp
  have key: "add_seq_loop (dscrptrs self) (first_dscrptr self d) = ?o m"
    unfolding first using add_seq_loop_orbit [of 0 m "strip d" "dscrptrs self"] taken free
    by simp
  let ?self' = "self\<lparr>priv_seqs := priv_seqs self @ [(?o m, normalized s)],
                      priv_useqs := insert (normalized s) (priv_useqs self)\<rparr>"
  have step: "add_seq self d s = (0, ?self')"
    using add_seq_added [of s self d] Cons.prems(2,4) key by simp
  have keys': "dscrptrs ?self' = ks @ map ?o [0 ..< Suc m]"
    using Cons.prems(5) by (simp add: dscrptrs_def)
  have fresh': "\<forall>t\<in>set rest. normalized t \<notin> seqs ?self'"
    using Cons.prems(3,4) by (force simp: seqs_def image_iff)
  have free': "\<forall>i < Suc m + length rest. ?o i \<notin> set ks"
    using Cons.prems(6) by simp
  have rec: "add_all ?self' d rest =
       (replicate (length rest) 0,
        ?self'\<lparr>priv_seqs := priv_seqs ?self'
                 @ zip (map ?o [Suc m ..< Suc m + length rest]) (map normalized rest),
              priv_useqs := priv_useqs ?self' \<union> set (map normalized rest)\<rparr>)"
    using Cons.IH [of ?self' "Suc m"] Cons.prems(1,2,3) fresh' keys' free' by simp
  show ?case
    using step rec orbit_Suc_upt [of ?o m "length rest"]
    by (simp del: upt_Suc)
qed


lemma isdecimal_no_underscore: "isdecimal ds \<Longrightarrow> CHR ''_'' \<notin> set ds"
  using not_digit_underscore by (auto simp: isdecimal_def list_all_iff)

lemma next_dscrptr_unnumbered: "\<not> numbered d \<Longrightarrow> next_dscrptr d = d @ ''_2''"
proof (cases "CHR ''_'' \<in> set d")
  case False
  then show ?thesis by (simp add: next_dscrptr_plain)
next
  case True
  assume plain: "\<not> numbered d"
  obtain a b where d: "d = a @ CHR ''_'' # b" and nb: "CHR ''_'' \<notin> set b"
    using True rsplit1_present by blast
  have "\<not> isdecimal b"
    using plain d by (auto simp: numbered_def)
  then show ?thesis
    using d nb by (simp add: next_dscrptr_nondecimal)
qed

lemma next_dscrptr_numbered:
  "isdecimal ds \<Longrightarrow> next_dscrptr (b @ ''_'' @ ds) = b @ ''_'' @ py_str (py_int ds + 1)"
  using next_dscrptr_decimal [of ds b] by (simp add: isdecimal_no_underscore)

lemma orbit_unnumbered:
  "\<not> numbered d \<Longrightarrow> (next_dscrptr ^^ Suc i) d = d @ ''_'' @ py_str (i + 2)"
proof (induction i)
  case 0
  then show ?case
    using py_str_2 by (simp add: next_dscrptr_unnumbered numeral_2_eq_2)
next
  case (Suc i)
  have "(next_dscrptr ^^ Suc (Suc i)) d = next_dscrptr (d @ ''_'' @ py_str (i + 2))"
    using Suc by simp
  also have "\<dots> = d @ ''_'' @ py_str (py_int (py_str (i + 2)) + 1)"
    by (rule next_dscrptr_numbered) (rule isdecimal_py_str)
  finally show ?case
    by (simp add: py_int_py_str)
qed

lemma orbit_numbered:
  "isdecimal ds \<Longrightarrow> (next_dscrptr ^^ Suc i) (b @ ''_'' @ ds) = b @ ''_'' @ py_str (py_int ds + 1 + i)"
proof (induction i)
  case 0
  then show ?case
    using next_dscrptr_numbered [of ds b] by simp
next
  case (Suc i)
  have "(next_dscrptr ^^ Suc (Suc i)) (b @ ''_'' @ ds)
      = next_dscrptr (b @ ''_'' @ py_str (py_int ds + 1 + i))"
    using Suc by simp
  also have "\<dots> = b @ ''_'' @ py_str (py_int (py_str (py_int ds + 1 + i)) + 1)"
    by (rule next_dscrptr_numbered) (rule isdecimal_py_str)
  finally show ?case
    by (simp add: py_int_py_str)
qed

lemma upt_orbit_split:
  "0 < n \<Longrightarrow> map f [0 ..< n] = f 0 # map (\<lambda>i. f (Suc i)) [0 ..< n - 1]"
  by (cases n) (simp_all add: upt_conv_Cons map_Suc_upt [symmetric] del: upt_Suc)

lemma map_shift_two: "map (\<lambda>i. g (i + 2)) [0 ..< n] = map g [2 ..< n + 2]"
  by (induction n) simp_all

lemma map_shift_one: "map (\<lambda>i. g (Suc i)) [0 ..< n] = map g [1 ..< Suc n]"
  by (induction n) simp_all

lemma dscrptrs_add_all_orbit:
  "strip d \<noteq> [] \<Longrightarrow> \<forall>s\<in>set ss. validate_seq (normalized s) \<Longrightarrow> distinct (map normalized ss) \<Longrightarrow>
   \<forall>s\<in>set ss. normalized s \<notin> seqs self \<Longrightarrow>
   \<forall>i < length ss. (next_dscrptr ^^ i) (strip d) \<notin> set (dscrptrs self) \<Longrightarrow>
     fst (add_all self d ss) = replicate (length ss) 0
     \<and> dscrptrs (snd (add_all self d ss))
         = dscrptrs self @ map (\<lambda>i. (next_dscrptr ^^ i) (strip d)) [0 ..< length ss]"
proof -
  assume a: "strip d \<noteq> []" "\<forall>s\<in>set ss. validate_seq (normalized s)" "distinct (map normalized ss)"
    "\<forall>s\<in>set ss. normalized s \<notin> seqs self"
    "\<forall>i < length ss. (next_dscrptr ^^ i) (strip d) \<notin> set (dscrptrs self)"
  have "add_all self d ss =
       (replicate (length ss) 0,
        self\<lparr>priv_seqs := priv_seqs self
                 @ zip (map (\<lambda>i. (next_dscrptr ^^ i) (strip d)) [0 ..< 0 + length ss])
                       (map normalized ss),
              priv_useqs := priv_useqs self \<union> set (map normalized ss)\<rparr>)"
    using a by (intro add_all_orbit [where ks = "dscrptrs self"]) simp_all
  then show ?thesis
    by (simp add: dscrptrs_def)
qed


lemma add_all_unnumbered:
  "strip d \<noteq> [] \<Longrightarrow> \<not> numbered (strip d) \<Longrightarrow> ss \<noteq> [] \<Longrightarrow>
   \<forall>s\<in>set ss. validate_seq (normalized s) \<Longrightarrow> distinct (map normalized ss) \<Longrightarrow>
   \<forall>s\<in>set ss. normalized s \<notin> seqs self \<Longrightarrow>
   strip d \<notin> set (dscrptrs self) \<Longrightarrow>
   \<forall>k. 2 \<le> k \<and> k \<le> length ss \<longrightarrow> strip d @ ''_'' @ py_str k \<notin> set (dscrptrs self) \<Longrightarrow>
     fst (add_all self d ss) = replicate (length ss) 0
     \<and> dscrptrs (snd (add_all self d ss))
         = dscrptrs self @ strip d # map (\<lambda>k. strip d @ ''_'' @ py_str k) [2 ..< Suc (length ss)]"
proof -
  assume a: "strip d \<noteq> []" "\<forall>s\<in>set ss. validate_seq (normalized s)"
    "distinct (map normalized ss)" "\<forall>s\<in>set ss. normalized s \<notin> seqs self"
    and plain: "\<not> numbered (strip d)" and ne: "ss \<noteq> []"
    and free0: "strip d \<notin> set (dscrptrs self)"
    and free: "\<forall>k. 2 \<le> k \<and> k \<le> length ss \<longrightarrow> strip d @ ''_'' @ py_str k \<notin> set (dscrptrs self)"
  let ?o = "\<lambda>i. (next_dscrptr ^^ i) (strip d)"
  have orbit: "?o (Suc i) = strip d @ ''_'' @ py_str (i + 2)" for i
    using plain by (rule orbit_unnumbered)
  have "\<forall>i < length ss. ?o i \<notin> set (dscrptrs self)"
  proof (intro allI impI)
    fix i assume "i < length ss"
    then show "?o i \<notin> set (dscrptrs self)"
      using free0 free orbit by (cases i) simp_all
  qed
  then have res: "fst (add_all self d ss) = replicate (length ss) 0"
    "dscrptrs (snd (add_all self d ss)) = dscrptrs self @ map ?o [0 ..< length ss]"
    using dscrptrs_add_all_orbit [of d ss self] a by simp_all
  have "map ?o [0 ..< length ss] = ?o 0 # map (\<lambda>i. ?o (Suc i)) [0 ..< length ss - 1]"
    using ne by (intro upt_orbit_split) simp
  also have "\<dots> = strip d # map (\<lambda>i. strip d @ ''_'' @ py_str (i + 2)) [0 ..< length ss - 1]"
    by (simp only: orbit funpow_0)
  also have "\<dots> = strip d # map (\<lambda>k. strip d @ ''_'' @ py_str k) [2 ..< length ss - 1 + 2]"
    using map_shift_two [of "\<lambda>k. strip d @ ''_'' @ py_str k" "length ss - 1"] by simp
  finally have "map ?o [0 ..< length ss]
      = strip d # map (\<lambda>k. strip d @ ''_'' @ py_str k) [2 ..< Suc (length ss)]"
    using ne by (cases ss) simp_all
  then show ?thesis
    using res by simp
qed

lemma add_all_numbered:
  "strip d = b @ ''_'' @ ds \<Longrightarrow> isdecimal ds \<Longrightarrow> ss \<noteq> [] \<Longrightarrow>
   \<forall>s\<in>set ss. validate_seq (normalized s) \<Longrightarrow> distinct (map normalized ss) \<Longrightarrow>
   \<forall>s\<in>set ss. normalized s \<notin> seqs self \<Longrightarrow>
   strip d \<notin> set (dscrptrs self) \<Longrightarrow>
   \<forall>k. 1 \<le> k \<and> k < length ss \<longrightarrow> b @ ''_'' @ py_str (py_int ds + k) \<notin> set (dscrptrs self) \<Longrightarrow>
     fst (add_all self d ss) = replicate (length ss) 0
     \<and> dscrptrs (snd (add_all self d ss))
         = dscrptrs self @ strip d # map (\<lambda>k. b @ ''_'' @ py_str (py_int ds + k)) [1 ..< length ss]"
proof -
  assume a: "\<forall>s\<in>set ss. validate_seq (normalized s)"
    "distinct (map normalized ss)" "\<forall>s\<in>set ss. normalized s \<notin> seqs self"
    and d: "strip d = b @ ''_'' @ ds" and dec: "isdecimal ds" and ne: "ss \<noteq> []"
    and free0: "strip d \<notin> set (dscrptrs self)"
    and free: "\<forall>k. 1 \<le> k \<and> k < length ss \<longrightarrow> b @ ''_'' @ py_str (py_int ds + k) \<notin> set (dscrptrs self)"
  let ?o = "\<lambda>i. (next_dscrptr ^^ i) (strip d)"
  have nonempty: "strip d \<noteq> []"
    using d by simp
  have orbit: "?o (Suc i) = b @ ''_'' @ py_str (py_int ds + Suc i)" for i
    unfolding d using orbit_numbered [OF dec, of i b] by simp
  have "\<forall>i < length ss. ?o i \<notin> set (dscrptrs self)"
  proof (intro allI impI)
    fix i assume i: "i < length ss"
    show "?o i \<notin> set (dscrptrs self)"
    proof (cases i)
      case 0
      then show ?thesis using free0 by simp
    next
      case (Suc j)
      then have "1 \<le> Suc j \<and> Suc j < length ss"
        using i by simp
      then have "b @ ''_'' @ py_str (py_int ds + Suc j) \<notin> set (dscrptrs self)"
        using free by blast
      then show ?thesis
        using Suc orbit [of j] by simp
    qed
  qed
  then have res: "fst (add_all self d ss) = replicate (length ss) 0"
    "dscrptrs (snd (add_all self d ss)) = dscrptrs self @ map ?o [0 ..< length ss]"
    using dscrptrs_add_all_orbit [of d ss self] a nonempty by simp_all
  have "map ?o [0 ..< length ss] = ?o 0 # map (\<lambda>i. ?o (Suc i)) [0 ..< length ss - 1]"
    using ne by (intro upt_orbit_split) simp
  also have "\<dots> = strip d # map (\<lambda>i. b @ ''_'' @ py_str (py_int ds + Suc i)) [0 ..< length ss - 1]"
    by (simp only: orbit funpow_0)
  also have "\<dots> = strip d # map (\<lambda>k. b @ ''_'' @ py_str (py_int ds + k)) [1 ..< Suc (length ss - 1)]"
    using map_shift_one [of "\<lambda>k. b @ ''_'' @ py_str (py_int ds + k)" "length ss - 1"] by simp
  finally have "map ?o [0 ..< length ss]
      = strip d # map (\<lambda>k. b @ ''_'' @ py_str (py_int ds + k)) [1 ..< length ss]"
    using ne by (cases ss) simp_all
  then show ?thesis
    using res by simp
qed


subsection \<open>What every reachable registry satisfies\<close>

lemma registry_ok_new: "registry_ok new_Seqs"
  by (simp add: registry_ok_def new_Seqs_def)

lemma registry_ok_add_seq: "registry_ok self \<Longrightarrow> registry_ok (snd (add_seq self d seq))"
proof -
  assume ok: "registry_ok self"
  consider "normalized seq \<in> seqs self"
    | "normalized seq \<notin> seqs self" "\<not> validate_seq (normalized seq)"
    | "normalized seq \<notin> seqs self" "validate_seq (normalized seq)"
    by blast
  then show ?thesis
  proof cases
    case 1
    then show ?thesis using ok by (simp add: add_seq_duplicate)
  next
    case 2
    then show ?thesis using ok by (simp add: add_seq_invalid)
  next
    case 3
    then show ?thesis
      using ok by (auto simp: add_seq_added registry_ok_def seqs_def)
  qed
qed

lemma add_accessions_seqs:
  "add_accessions self d accs seq verify = Inr (b, self')
     \<Longrightarrow> priv_seqs self' = priv_seqs self \<and> priv_useqs self' = priv_useqs self"
  by (auto simp: add_accessions_def split: sum.splits if_splits)

lemma add_structures_seqs:
  "add_structures self d strs seq verify = Inr (b, self')
     \<Longrightarrow> priv_seqs self' = priv_seqs self \<and> priv_useqs self' = priv_useqs self"
  by (auto simp: add_structures_def split: sum.splits if_splits list.splits)

lemma reachable_ok: "reachable self \<Longrightarrow> registry_ok self"
proof (induction rule: reachable.induct)
  case new
  show ?case by (rule registry_ok_new)
next
  case (seq self dscrptr seq)
  then show ?case by (simp add: registry_ok_add_seq)
next
  case (accessions self dscrptr accs seq verify b self')
  then show ?case
    using add_accessions_seqs [of self dscrptr accs seq verify b self']
    by (simp add: registry_ok_def)
next
  case (structures self dscrptr strs seq verify b self')
  then show ?case
    using add_structures_seqs [of self dscrptr strs seq verify b self']
    by (simp add: registry_ok_def)
qed

lemma one_entry:
  "distinct (map f l) \<Longrightarrow> x \<in> f ` set l \<Longrightarrow> length (filter (\<lambda>e. f e = x) l) = 1"
proof (induction l)
  case Nil
  then show ?case by simp
next
  case (Cons e l)
  show ?case
  proof (cases "f e = x")
    case True
    then have "filter (\<lambda>e. f e = x) l = []"
      using Cons.prems(1) by (force simp: filter_empty_conv image_iff)
    then show ?thesis using True by simp
  next
    case False
    then show ?thesis using Cons by auto
  qed
qed

lemma add_seq_stores:
  "validate_seq (normalized seq) \<Longrightarrow> normalized seq \<in> seqs (snd (add_seq self d seq))"
  by (cases "normalized seq \<in> seqs self")
     (simp_all add: add_seq_duplicate add_seq_added seqs_def)

lemma all_valid_add_seq: "all_valid self \<Longrightarrow> all_valid (snd (add_seq self d seq))"
proof -
  assume ok: "all_valid self"
  consider "normalized seq \<in> seqs self"
    | "normalized seq \<notin> seqs self" "\<not> validate_seq (normalized seq)"
    | "normalized seq \<notin> seqs self" "validate_seq (normalized seq)"
    by blast
  then show ?thesis
  proof cases
    case 1
    then show ?thesis using ok by (simp add: add_seq_duplicate)
  next
    case 2
    then show ?thesis using ok by (simp add: add_seq_invalid)
  next
    case 3
    then show ?thesis
      using ok by (simp add: add_seq_added all_valid_def)
  qed
qed

lemma reachable_valid: "reachable self \<Longrightarrow> all_valid self"
proof (induction rule: reachable.induct)
  case new
  show ?case by (simp add: all_valid_def new_Seqs_def)
next
  case (seq self dscrptr seq)
  then show ?case by (simp add: all_valid_add_seq)
next
  case (accessions self dscrptr accs seq verify b self')
  then show ?case
    using add_accessions_seqs [of self dscrptr accs seq verify b self']
    by (simp add: all_valid_def)
next
  case (structures self dscrptr strs seq verify b self')
  then show ?case
    using add_structures_seqs [of self dscrptr strs seq verify b self']
    by (simp add: all_valid_def)
qed

lemma add_seq_invalid_reachable:
  "reachable self \<Longrightarrow> \<not> validate_seq (normalized seq) \<Longrightarrow> add_seq self d seq = (1, self)"
proof -
  assume "reachable self" and bad: "\<not> validate_seq (normalized seq)"
  then have "all_valid self"
    by (simp add: reachable_valid)
  then have "normalized seq \<notin> seqs self"
    using bad by (auto simp: all_valid_def seqs_def)
  then show ?thesis
    using bad by (rule add_seq_invalid)
qed

lemma numbered_iff:
  "numbered d \<longleftrightarrow> CHR ''_'' \<in> set d \<and> isdecimal (rsplit1 CHR ''_'' d ! 1)"
proof
  assume "numbered d"
  then obtain b ds where d: "d = b @ ''_'' @ ds" and dec: "isdecimal ds"
    by (auto simp: numbered_def)
  then have "rsplit1 CHR ''_'' d = [b, ds]"
    using rsplit1_append [of "CHR ''_''" ds b] isdecimal_no_underscore by simp
  then show "CHR ''_'' \<in> set d \<and> isdecimal (rsplit1 CHR ''_'' d ! 1)"
    using d dec by simp
next
  assume a: "CHR ''_'' \<in> set d \<and> isdecimal (rsplit1 CHR ''_'' d ! 1)"
  then obtain b ds where "d = b @ CHR ''_'' # ds" "rsplit1 CHR ''_'' d = [b, ds]"
    using rsplit1_present by blast
  then show "numbered d"
    using a by (auto simp: numbered_def)
qed

text \<open>
  C4, as amended. \<open>add_seq\<close> returns Duplicate (2) and leaves the registry as it is when
  the normalized sequence is already stored; otherwise it returns Invalid (1), again
  without a change, when the normalized sequence does not match the amino-acid pattern
  (in a registry a run can reach, every sequence that does not match gets Invalid).
  Otherwise it starts from the trimmed descriptor, or from \<open>seq_\<close>n with n the size of the
  registry plus one when that is empty, replaces a descriptor that is taken by its
  successor until one is free, appends the entry under it and returns Added (0). The
  successor of a descriptor that does not end in an underscore and digits is the
  descriptor followed by \<open>_2\<close>; the successor of \<open>b_\<close>n is \<open>b_\<close>(n+1). So N valid, distinct,
  new sequences submitted under the same descriptor \<open>d\<close>, not empty, receive
  \<open>d, d_2, ..., d_N\<close> when \<open>d\<close> does not end in an underscore and digits, and
  \<open>b_n, b_(n+1), ..., b_(n+N-1)\<close> when \<open>d\<close> is \<open>b_n\<close>, as long as none of these is taken
  before.
\<close>

theorem add_seq_outcomes:
  "(normalized seq \<in> seqs self \<longrightarrow> add_seq self dscrptr seq = (2, self))
   \<and> (normalized seq \<notin> seqs self \<and> \<not> validate_seq (normalized seq)
        \<longrightarrow> add_seq self dscrptr seq = (1, self))
   \<and> (reachable self \<and> \<not> validate_seq (normalized seq)
        \<longrightarrow> add_seq self dscrptr seq = (1, self))
   \<and> (normalized seq \<notin> seqs self \<and> validate_seq (normalized seq)
        \<longrightarrow> (\<exists>j. (\<forall>i<j. (next_dscrptr ^^ i) (first_dscrptr self dscrptr) \<in> set (dscrptrs self))
                \<and> (next_dscrptr ^^ j) (first_dscrptr self dscrptr) \<notin> set (dscrptrs self)
                \<and> add_seq self dscrptr seq =
                    (0, self\<lparr>priv_seqs := priv_seqs self
                                 @ [((next_dscrptr ^^ j) (first_dscrptr self dscrptr),
                                     normalized seq)],
                              priv_useqs := insert (normalized seq) (priv_useqs self)\<rparr>)))
   \<and> (\<not> numbered d \<longrightarrow> next_dscrptr d = d @ ''_2'')
   \<and> (isdecimal ds \<longrightarrow> next_dscrptr (b @ ''_'' @ ds) = b @ ''_'' @ py_str (py_int ds + 1))
   \<and> (strip dscrptr \<noteq> [] \<and> \<not> numbered (strip dscrptr) \<and> ss \<noteq> []
        \<and> (\<forall>s\<in>set ss. validate_seq (normalized s)) \<and> distinct (map normalized ss)
        \<and> (\<forall>s\<in>set ss. normalized s \<notin> seqs self)
        \<and> strip dscrptr \<notin> set (dscrptrs self)
        \<and> (\<forall>k. 2 \<le> k \<and> k \<le> length ss
                \<longrightarrow> strip dscrptr @ ''_'' @ py_str k \<notin> set (dscrptrs self))
        \<longrightarrow> fst (add_all self dscrptr ss) = replicate (length ss) 0
            \<and> dscrptrs (snd (add_all self dscrptr ss))
                = dscrptrs self @ strip dscrptr
                    # map (\<lambda>k. strip dscrptr @ ''_'' @ py_str k) [2 ..< Suc (length ss)])
   \<and> (strip dscrptr = b @ ''_'' @ ds \<and> isdecimal ds \<and> ss \<noteq> []
        \<and> (\<forall>s\<in>set ss. validate_seq (normalized s)) \<and> distinct (map normalized ss)
        \<and> (\<forall>s\<in>set ss. normalized s \<notin> seqs self)
        \<and> strip dscrptr \<notin> set (dscrptrs self)
        \<and> (\<forall>k. 1 \<le> k \<and> k < length ss
                \<longrightarrow> b @ ''_'' @ py_str (py_int ds + k) \<notin> set (dscrptrs self))
        \<longrightarrow> fst (add_all self dscrptr ss) = replicate (length ss) 0
            \<and> dscrptrs (snd (add_all self dscrptr ss))
                = dscrptrs self @ strip dscrptr
                    # map (\<lambda>k. b @ ''_'' @ py_str (py_int ds + k)) [1 ..< length ss])"
proof (intro conjI impI)
  assume "normalized seq \<in> seqs self"
  then show "add_seq self dscrptr seq = (2, self)"
    by (rule add_seq_duplicate)
next
  assume "normalized seq \<notin> seqs self \<and> \<not> validate_seq (normalized seq)"
  then show "add_seq self dscrptr seq = (1, self)"
    by (simp add: add_seq_invalid)
next
  assume "reachable self \<and> \<not> validate_seq (normalized seq)"
  then show "add_seq self dscrptr seq = (1, self)"
    by (simp add: add_seq_invalid_reachable)
next
  assume a: "normalized seq \<notin> seqs self \<and> validate_seq (normalized seq)"
  obtain j where j: "add_seq_loop (dscrptrs self) (first_dscrptr self dscrptr)
        = (next_dscrptr ^^ j) (first_dscrptr self dscrptr)"
      "\<forall>i<j. (next_dscrptr ^^ i) (first_dscrptr self dscrptr) \<in> set (dscrptrs self)"
      "(next_dscrptr ^^ j) (first_dscrptr self dscrptr) \<notin> set (dscrptrs self)"
    using add_seq_loop_steps [of "dscrptrs self" "first_dscrptr self dscrptr"] by blast
  have "add_seq self dscrptr seq =
      (0, self\<lparr>priv_seqs := priv_seqs self
                  @ [((next_dscrptr ^^ j) (first_dscrptr self dscrptr), normalized seq)],
               priv_useqs := insert (normalized seq) (priv_useqs self)\<rparr>)"
    using a add_seq_added [of seq self dscrptr] j(1) by simp
  then show "\<exists>j. (\<forall>i<j. (next_dscrptr ^^ i) (first_dscrptr self dscrptr) \<in> set (dscrptrs self))
                \<and> (next_dscrptr ^^ j) (first_dscrptr self dscrptr) \<notin> set (dscrptrs self)
                \<and> add_seq self dscrptr seq =
                    (0, self\<lparr>priv_seqs := priv_seqs self
                                 @ [((next_dscrptr ^^ j) (first_dscrptr self dscrptr),
                                     normalized seq)],
                              priv_useqs := insert (normalized seq) (priv_useqs self)\<rparr>)"
    using j(2,3) by blast
next
  assume "\<not> numbered d"
  then show "next_dscrptr d = d @ ''_2''"
    by (rule next_dscrptr_unnumbered)
next
  assume "isdecimal ds"
  then show "next_dscrptr (b @ ''_'' @ ds) = b @ ''_'' @ py_str (py_int ds + 1)"
    by (rule next_dscrptr_numbered)
next
  assume a: "strip dscrptr \<noteq> [] \<and> \<not> numbered (strip dscrptr) \<and> ss \<noteq> []
        \<and> (\<forall>s\<in>set ss. validate_seq (normalized s)) \<and> distinct (map normalized ss)
        \<and> (\<forall>s\<in>set ss. normalized s \<notin> seqs self)
        \<and> strip dscrptr \<notin> set (dscrptrs self)
        \<and> (\<forall>k. 2 \<le> k \<and> k \<le> length ss
                \<longrightarrow> strip dscrptr @ ''_'' @ py_str k \<notin> set (dscrptrs self))"
  then have r: "fst (add_all self dscrptr ss) = replicate (length ss) 0
     \<and> dscrptrs (snd (add_all self dscrptr ss))
         = dscrptrs self @ strip dscrptr
             # map (\<lambda>k. strip dscrptr @ ''_'' @ py_str k) [2 ..< Suc (length ss)]"
    by (intro add_all_unnumbered) blast+
  from r show "fst (add_all self dscrptr ss) = replicate (length ss) 0" ..
  from r show "dscrptrs (snd (add_all self dscrptr ss))
         = dscrptrs self @ strip dscrptr
             # map (\<lambda>k. strip dscrptr @ ''_'' @ py_str k) [2 ..< Suc (length ss)]" ..
next
  assume a: "strip dscrptr = b @ ''_'' @ ds \<and> isdecimal ds \<and> ss \<noteq> []
        \<and> (\<forall>s\<in>set ss. validate_seq (normalized s)) \<and> distinct (map normalized ss)
        \<and> (\<forall>s\<in>set ss. normalized s \<notin> seqs self)
        \<and> strip dscrptr \<notin> set (dscrptrs self)
        \<and> (\<forall>k. 1 \<le> k \<and> k < length ss
                \<longrightarrow> b @ ''_'' @ py_str (py_int ds + k) \<notin> set (dscrptrs self))"
  then have r: "fst (add_all self dscrptr ss) = replicate (length ss) 0
     \<and> dscrptrs (snd (add_all self dscrptr ss))
         = dscrptrs self @ strip dscrptr
             # map (\<lambda>k. b @ ''_'' @ py_str (py_int ds + k)) [1 ..< length ss]"
    by (intro add_all_numbered) blast+
  from r show "fst (add_all self dscrptr ss) = replicate (length ss) 0" ..
  from r show "dscrptrs (snd (add_all self dscrptr ss))
         = dscrptrs self @ strip dscrptr
             # map (\<lambda>k. b @ ''_'' @ py_str (py_int ds + k)) [1 ..< length ss]" ..
qed

theorem add_seq_counterexample:
  "fst (add_all new_Seqs ''x_5'' [''ACD'', ''CCC'', ''DDD'']) = [0, 0, 0]
   \<and> dscrptrs (snd (add_all new_Seqs ''x_5'' [''ACD'', ''CCC'', ''DDD''])) = [''x_5'', ''x_6'', ''x_7'']"
  by code_simp


theorem add_seq_outcomes_witness:
  "add_seq \<lparr>priv_seqs = [(''x'', ''ACD'')], priv_useqs = {''ACD''},
             priv_structures = [], priv_accessions = []\<rparr> ''y'' '' acd''
     = (2, \<lparr>priv_seqs = [(''x'', ''ACD'')], priv_useqs = {''ACD''},
             priv_structures = [], priv_accessions = []\<rparr>)
   \<and> add_seq \<lparr>priv_seqs = [(''x'', ''ACD'')], priv_useqs = {''ACD''},
             priv_structures = [], priv_accessions = []\<rparr> ''y'' ''ab''
     = (1, \<lparr>priv_seqs = [(''x'', ''ACD'')], priv_useqs = {''ACD''},
             priv_structures = [], priv_accessions = []\<rparr>)
   \<and> add_seq new_Seqs ''y'' ''ab'' = (1, new_Seqs)
   \<and> add_seq \<lparr>priv_seqs = [(''x'', ''ACD'')], priv_useqs = {''ACD''},
             priv_structures = [], priv_accessions = []\<rparr> '' x '' ''ccc''
     = (0, \<lparr>priv_seqs = [(''x'', ''ACD''), (''x_2'', ''CCC'')], priv_useqs = {''CCC'', ''ACD''},
             priv_structures = [], priv_accessions = []\<rparr>)
   \<and> (\<exists>j. (\<forall>i<j. (next_dscrptr ^^ i)
                      (first_dscrptr \<lparr>priv_seqs = [(''x'', ''ACD'')], priv_useqs = {''ACD''},
                                      priv_structures = [], priv_accessions = []\<rparr> '' x '')
                    \<in> set (dscrptrs \<lparr>priv_seqs = [(''x'', ''ACD'')], priv_useqs = {''ACD''},
                                        priv_structures = [], priv_accessions = []\<rparr>))
          \<and> (next_dscrptr ^^ j)
                (first_dscrptr \<lparr>priv_seqs = [(''x'', ''ACD'')], priv_useqs = {''ACD''},
                                priv_structures = [], priv_accessions = []\<rparr> '' x '')
              \<notin> set (dscrptrs \<lparr>priv_seqs = [(''x'', ''ACD'')], priv_useqs = {''ACD''},
                                  priv_structures = [], priv_accessions = []\<rparr>)
          \<and> add_seq \<lparr>priv_seqs = [(''x'', ''ACD'')], priv_useqs = {''ACD''},
                        priv_structures = [], priv_accessions = []\<rparr> '' x '' ''ccc''
              = (0, \<lparr>priv_seqs = [(''x'', ''ACD'')], priv_useqs = {''ACD''},
                      priv_structures = [], priv_accessions = []\<rparr>
                    \<lparr>priv_seqs :=
                       priv_seqs \<lparr>priv_seqs = [(''x'', ''ACD'')], priv_useqs = {''ACD''},
                                   priv_structures = [], priv_accessions = []\<rparr>
                       @ [((next_dscrptr ^^ j)
                             (first_dscrptr \<lparr>priv_seqs = [(''x'', ''ACD'')],
                                priv_useqs = {''ACD''}, priv_structures = [],
                                priv_accessions = []\<rparr> '' x ''),
                           normalized ''ccc'')],
                     priv_useqs :=
                       insert (normalized ''ccc'')
                         (priv_useqs \<lparr>priv_seqs = [(''x'', ''ACD'')], priv_useqs = {''ACD''},
                                       priv_structures = [], priv_accessions = []\<rparr>)\<rparr>))
   \<and> next_dscrptr ''x'' = ''x'' @ ''_2''
   \<and> next_dscrptr (''x'' @ ''_'' @ ''5'') = ''x'' @ ''_'' @ py_str (py_int ''5'' + 1)
   \<and> dscrptrs (snd (add_all new_Seqs ''x'' [''ACD'', ''CCC'', ''DDD'']))
       = dscrptrs new_Seqs @ strip ''x''
           # map (\<lambda>k. strip ''x'' @ ''_'' @ py_str k) [2 ..< Suc (length [''ACD'', ''CCC'', ''DDD''])]
   \<and> dscrptrs (snd (add_all new_Seqs ''x'' [''ACD'', ''CCC'', ''DDD''])) = [''x'', ''x_2'', ''x_3'']
   \<and> dscrptrs (snd (add_all new_Seqs ''x_5'' [''ACD'', ''CCC'', ''DDD'']))
       = dscrptrs new_Seqs @ strip ''x_5''
           # map (\<lambda>k. ''x'' @ ''_'' @ py_str (py_int ''5'' + k)) [1 ..< length [''ACD'', ''CCC'', ''DDD'']]"
proof -
  let ?r = "\<lparr>priv_seqs = [(''x'', ''ACD'')], priv_useqs = {''ACD''},
             priv_structures = [], priv_accessions = []\<rparr>"
  let ?ss = "[''ACD'', ''CCC'', ''DDD'']"
  have dup: "normalized '' acd'' \<in> seqs ?r"
    by code_simp
  have inv: "normalized ''ab'' \<notin> seqs ?r \<and> \<not> validate_seq (normalized ''ab'')"
    by code_simp
  have add: "add_seq ?r '' x '' ''ccc''
     = (0, \<lparr>priv_seqs = [(''x'', ''ACD''), (''x_2'', ''CCC'')], priv_useqs = {''CCC'', ''ACD''},
             priv_structures = [], priv_accessions = []\<rparr>)"
    by code_simp
  have plain: "\<not> numbered ''x''"
    unfolding numbered_iff by code_simp
  have dec: "isdecimal ''5''"
    by code_simp
  have stripped: "strip ''x'' = ''x''" "strip ''x_5'' = ''x'' @ ''_'' @ ''5''"
    by code_simp+
  have ok: "\<forall>s\<in>set ?ss. validate_seq (normalized s)" "distinct (map normalized ?ss)"
    by code_simp+
  have fresh: "\<forall>s\<in>set ?ss. normalized s \<notin> seqs new_Seqs"
    by (simp add: seqs_def new_Seqs_def)
  have free: "set (dscrptrs new_Seqs) = {}"
    by (simp add: dscrptrs_def new_Seqs_def)
  have value3: "dscrptrs (snd (add_all new_Seqs ''x'' ?ss)) = [''x'', ''x_2'', ''x_3'']"
    by code_simp
  have n1: "strip ''x'' \<noteq> [] \<and> \<not> numbered (strip ''x'') \<and> ?ss \<noteq> []
        \<and> (\<forall>s\<in>set ?ss. validate_seq (normalized s)) \<and> distinct (map normalized ?ss)
        \<and> (\<forall>s\<in>set ?ss. normalized s \<notin> seqs new_Seqs)
        \<and> strip ''x'' \<notin> set (dscrptrs new_Seqs)
        \<and> (\<forall>k. 2 \<le> k \<and> k \<le> length ?ss
                \<longrightarrow> strip ''x'' @ ''_'' @ py_str k \<notin> set (dscrptrs new_Seqs))"
    unfolding free stripped using plain ok fresh by blast
  have n2: "strip ''x_5'' = ''x'' @ ''_'' @ ''5'' \<and> isdecimal ''5'' \<and> ?ss \<noteq> []
        \<and> (\<forall>s\<in>set ?ss. validate_seq (normalized s)) \<and> distinct (map normalized ?ss)
        \<and> (\<forall>s\<in>set ?ss. normalized s \<notin> seqs new_Seqs)
        \<and> strip ''x_5'' \<notin> set (dscrptrs new_Seqs)
        \<and> (\<forall>k. 1 \<le> k \<and> k < length ?ss
                \<longrightarrow> ''x'' @ ''_'' @ py_str (py_int ''5'' + k) \<notin> set (dscrptrs new_Seqs))"
    unfolding free using dec ok fresh stripped(2) by blast
  note T = add_seq_outcomes [where d = "''x''" and ds = "''5''" and b = "''x''" and ss = ?ss]
  have c1: "add_seq ?r ''y'' '' acd'' = (2, ?r)"
    using T [where seq = "'' acd''" and self = ?r and dscrptr = "''y''", THEN conjunct1] dup
    by (rule mp)
  have c2: "add_seq ?r ''y'' ''ab'' = (1, ?r)"
    using T [where seq = "''ab''" and self = ?r and dscrptr = "''y''",
        THEN conjunct2, THEN conjunct1] inv
    by (rule mp)
  have new: "normalized ''ccc'' \<notin> seqs ?r \<and> validate_seq (normalized ''ccc'')"
    by code_simp
  have bad: "reachable new_Seqs \<and> \<not> validate_seq (normalized ''ab'')"
    using reachable.new inv by blast
  note c2' = T [where seq = "''ab''" and self = new_Seqs and dscrptr = "''y''",
        THEN conjunct2, THEN conjunct2, THEN conjunct1, THEN mp, OF bad]
  note c3 = T [where seq = "''ccc''" and self = ?r and dscrptr = "'' x ''",
        THEN conjunct2, THEN conjunct2, THEN conjunct2, THEN conjunct1, THEN mp, OF new]
  have c4: "next_dscrptr ''x'' = ''x'' @ ''_2''"
    using T [where seq = "''ab''" and self = ?r and dscrptr = "''y''",
        THEN conjunct2, THEN conjunct2, THEN conjunct2, THEN conjunct2, THEN conjunct1] plain
    by (rule mp)
  have c5: "next_dscrptr (''x'' @ ''_'' @ ''5'') = ''x'' @ ''_'' @ py_str (py_int ''5'' + 1)"
    using T [where seq = "''ab''" and self = ?r and dscrptr = "''y''",
        THEN conjunct2, THEN conjunct2, THEN conjunct2, THEN conjunct2, THEN conjunct2,
        THEN conjunct1] dec
    by (rule mp)
  have c6: "fst (add_all new_Seqs ''x'' ?ss) = replicate (length ?ss) 0
            \<and> dscrptrs (snd (add_all new_Seqs ''x'' ?ss))
                = dscrptrs new_Seqs @ strip ''x''
                    # map (\<lambda>k. strip ''x'' @ ''_'' @ py_str k) [2 ..< Suc (length ?ss)]"
    using T [where seq = "''ab''" and self = new_Seqs and dscrptr = "''x''",
        THEN conjunct2, THEN conjunct2, THEN conjunct2, THEN conjunct2, THEN conjunct2,
        THEN conjunct2, THEN conjunct1] n1
    by (rule mp)
  have c7: "fst (add_all new_Seqs ''x_5'' ?ss) = replicate (length ?ss) 0
            \<and> dscrptrs (snd (add_all new_Seqs ''x_5'' ?ss))
                = dscrptrs new_Seqs @ strip ''x_5''
                    # map (\<lambda>k. ''x'' @ ''_'' @ py_str (py_int ''5'' + k)) [1 ..< length ?ss]"
    using T [where seq = "''ab''" and self = new_Seqs and dscrptr = "''x_5''",
        THEN conjunct2, THEN conjunct2, THEN conjunct2, THEN conjunct2, THEN conjunct2,
        THEN conjunct2, THEN conjunct2] n2
    by (rule mp)
  show ?thesis
    by (intro conjI) (rule c1 c2 c2' add c3 c4 c5 c6 [THEN conjunct2] value3 c7 [THEN conjunct2])+
qed


subsection \<open>The registry holds every sequence once\<close>

text \<open>
  C5. In every registry a run can reach no two entries hold the same sequence. So, for a
  valid sequence, adding it and then adding a sequence with the same normalized text
  yields Duplicate (2) for the second, which leaves the registry as it is, and exactly one
  entry holds the sequence; the first yields Added (0) when the sequence was not stored
  before.
\<close>

theorem registry_unique:
  "reachable self \<Longrightarrow>
     distinct (map snd (priv_seqs self))
     \<and> (validate_seq (normalized seq) \<and> normalized seq2 = normalized seq \<longrightarrow>
          (normalized seq \<notin> seqs self \<longrightarrow> fst (add_seq self d seq) = 0)
          \<and> add_seq (snd (add_seq self d seq)) d2 seq2 = (2, snd (add_seq self d seq))
          \<and> length (filter (\<lambda>e. snd e = normalized seq)
                       (priv_seqs (snd (add_seq (snd (add_seq self d seq)) d2 seq2)))) = 1)"
proof -
  assume r: "reachable self"
  then have ok: "registry_ok self"
    by (rule reachable_ok)
  let ?r1 = "snd (add_seq self d seq)"
  have ok1: "registry_ok ?r1"
    using ok by (rule registry_ok_add_seq)
  have "distinct (map snd (priv_seqs self))"
    using ok by (simp add: registry_ok_def)
  moreover have "(normalized seq \<notin> seqs self \<longrightarrow> fst (add_seq self d seq) = 0)
          \<and> add_seq ?r1 d2 seq2 = (2, ?r1)
          \<and> length (filter (\<lambda>e. snd e = normalized seq)
                       (priv_seqs (snd (add_seq ?r1 d2 seq2)))) = 1"
    if v: "validate_seq (normalized seq)" and same: "normalized seq2 = normalized seq"
  proof -
    have first: "normalized seq \<notin> seqs self \<longrightarrow> fst (add_seq self d seq) = 0"
      using v by (simp add: add_seq_added)
    have stored: "normalized seq2 \<in> seqs ?r1"
      unfolding same using v by (rule add_seq_stores)
    then have second: "add_seq ?r1 d2 seq2 = (2, ?r1)"
      by (rule add_seq_duplicate)
    have "normalized seq \<in> snd ` set (priv_seqs ?r1)"
      using stored ok1 same by (simp add: registry_ok_def seqs_def)
    moreover have "distinct (map snd (priv_seqs ?r1))"
      using ok1 by (simp add: registry_ok_def)
    ultimately have "length (filter (\<lambda>e. snd e = normalized seq) (priv_seqs ?r1)) = 1"
      by (intro one_entry)
    then show ?thesis
      using first second by simp
  qed
  ultimately show ?thesis
    by blast
qed

theorem registry_unique_witness:
  "reachable new_Seqs
   \<and> distinct (map snd (priv_seqs new_Seqs))
   \<and> validate_seq (normalized '' acd'')
   \<and> normalized ''ACD '' = normalized '' acd''
   \<and> fst (add_seq new_Seqs [] '' acd'') = 0
   \<and> add_seq (snd (add_seq new_Seqs [] '' acd'')) ''q'' ''ACD ''
       = (2, snd (add_seq new_Seqs [] '' acd''))
   \<and> length (filter (\<lambda>e. snd e = normalized '' acd'')
        (priv_seqs (snd (add_seq (snd (add_seq new_Seqs [] '' acd'')) ''q'' ''ACD '')))) = 1
   \<and> priv_seqs (snd (add_seq (snd (add_seq new_Seqs [] '' acd'')) ''q'' ''ACD ''))
       = [(''seq_1'', ''ACD'')]"
proof -
  have v: "validate_seq (normalized '' acd'') \<and> normalized ''ACD '' = normalized '' acd''"
    by code_simp
  have fresh: "normalized '' acd'' \<notin> seqs new_Seqs"
    by (simp add: seqs_def new_Seqs_def)
  have stored: "priv_seqs (snd (add_seq (snd (add_seq new_Seqs [] '' acd'')) ''q'' ''ACD ''))
       = [(''seq_1'', ''ACD'')]"
    by code_simp
  note T = registry_unique [OF reachable.new, of "'' acd''" "''ACD ''" "[]" "''q''"]
  show ?thesis
    using v fresh stored T reachable.new by blast
qed


subsection \<open>Matching a descriptor against the pattern of a candidate\<close>






















text \<open>
  C10. The candidate goes into the pattern as it is, so a dot in it matches any
  character: in the registry that holds the one sequence \<open>ACD\<close> under \<open>aXb\<close>, the
  candidate \<open>a.b\<close> resolves to \<open>aXb\<close>, which does not start with the candidate, and the
  verified \<open>add_accessions\<close> and \<open>add_structures\<close> store their lists under \<open>aXb\<close>.
\<close>

theorem verify_dscrptr_dot:
  "snd (add_seq new_Seqs ''aXb'' ''ACD'')
     = \<lparr>priv_seqs = [(''aXb'', ''ACD'')], priv_useqs = {''ACD''},
        priv_structures = [], priv_accessions = []\<rparr>
   \<and> verify_dscrptr (snd (add_seq new_Seqs ''aXb'' ''ACD'')) ''a.b'' ''acd'' = Inr ''aXb''
   \<and> \<not> startswith ''aXb'' ''a.b''
   \<and> add_accessions (snd (add_seq new_Seqs ''aXb'' ''ACD'')) ''a.b'' [''P12345''] ''acd'' True
       = Inr (True, \<lparr>priv_seqs = [(''aXb'', ''ACD'')], priv_useqs = {''ACD''},
                      priv_structures = [], priv_accessions = [(''aXb'', [''P12345''])]\<rparr>)
   \<and> add_structures (snd (add_seq new_Seqs ''aXb'' ''ACD'')) ''a.b'' [''pdb'', ''1ABC''] ''acd'' True
       = Inr (True, \<lparr>priv_seqs = [(''aXb'', ''ACD'')], priv_useqs = {''ACD''},
                      priv_structures = [(''aXb'', [''pdb'', ''1ABC''])], priv_accessions = []\<rparr>)"
  by code_simp

end
